theory Spec2Isabelle
  imports Main "HOL-Library.Product_Lexorder" "HOL-Library.Multiset"
begin

section \<open>Errors\<close>

text \<open>
  Both modules signal failure by raising \<^verbatim>\<open>ValueError(message)\<close>. The model keeps the
  message, so that the two raise sites stay distinguishable.
\<close>

datatype error = ValueError string

abbreviation NoSizesAvailable :: error where
  "NoSizesAvailable \<equiv> ValueError ''No sizes available in ICO''"

abbreviation PixelLoadFailed :: error where
  "PixelLoadFailed \<equiv> ValueError ''Failed to load image pixels''"

section \<open>Frame-size selection: \<^verbatim>\<open>ico_parser.select_size\<close>\<close>

text \<open>
  A size is a Python tuple \<^verbatim>\<open>(width, height)\<close> of unbounded integers. The available sizes
  arrive as a Python list; \<^verbatim>\<open>desired\<close> is a tuple or \<^verbatim>\<open>None\<close>.
\<close>

type_synonym size = "int \<times> int"

text \<open>
  The two sort keys, as the lambdas of the source build them. Python compares tuples
  lexicographically, which is the order of \<^theory_text>\<open>Product_Lexorder\<close> on nested pairs.
\<close>

definition largest_key :: "size \<Rightarrow> int \<times> int \<times> int" where
  "largest_key s = (fst s * snd s, fst s, snd s)"

definition nearest_key :: "size \<Rightarrow> int \<times> int \<times> int \<times> int" where
  "nearest_key s = (\<bar>fst s - snd s\<bar>, fst s * snd s, fst s, snd s)"

text \<open>
  Python's \<^verbatim>\<open>max(xs, key=f)\<close> and \<^verbatim>\<open>min(xs, key=f)\<close> walk the sequence once and replace the
  element kept so far only when the new key is strictly greater (strictly smaller), so
  the first extremal element wins. On an empty sequence they raise \<^verbatim>\<open>ValueError\<close>.
\<close>

fun max_from :: "('a \<Rightarrow> 'k::linorder) \<Rightarrow> 'a \<Rightarrow> 'a list \<Rightarrow> 'a" where
  "max_from key best [] = best"
| "max_from key best (x # xs) = max_from key (if key best < key x then x else best) xs"

fun min_from :: "('a \<Rightarrow> 'k::linorder) \<Rightarrow> 'a \<Rightarrow> 'a list \<Rightarrow> 'a" where
  "min_from key best [] = best"
| "min_from key best (x # xs) = min_from key (if key x < key best then x else best) xs"

fun py_max :: "('a \<Rightarrow> 'k::linorder) \<Rightarrow> 'a list \<Rightarrow> error + 'a" where
  "py_max key [] = Inl (ValueError ''max() arg is an empty sequence'')"
| "py_max key (x # xs) = Inr (max_from key x xs)"

fun py_min :: "('a \<Rightarrow> 'k::linorder) \<Rightarrow> 'a list \<Rightarrow> error + 'a" where
  "py_min key [] = Inl (ValueError ''min() arg is an empty sequence'')"
| "py_min key (x # xs) = Inr (min_from key x xs)"

definition select_size :: "size list \<Rightarrow> size option \<Rightarrow> error + size" where
  "select_size available desired =
     (if available = [] then Inl NoSizesAvailable
      else case py_max largest_key available of
        Inl e \<Rightarrow> Inl e
      | Inr largest \<Rightarrow>
          (case desired of
             None \<Rightarrow> Inr largest
           | Some (dw, dh) \<Rightarrow>
               if (dw, dh) \<in> set available then Inr (dw, dh)
               else
                 let larger = filter (\<lambda>(w, h). w \<ge> dw \<and> h \<ge> dh) available
                 in if larger \<noteq> [] then py_min nearest_key larger
                    else Inr largest))"

section \<open>Scanline vectorisation: \<^verbatim>\<open>svg_writer.vectorize\<close>\<close>

text \<open>
  The dataclass \<^verbatim>\<open>Run(y, x1, x2)\<close>: a row index and an inclusive column interval, all
  Python integers.
\<close>

record Run =
  run_y :: int
  run_x1 :: int
  run_x2 :: int

text \<open>
  What the pixel access object hands back for one position: a tuple of channel values for
  a multi-band image, a single number otherwise. The image itself is its size and the
  result of \<^verbatim>\<open>image.load()\<close>, which may be \<^verbatim>\<open>None\<close>.
\<close>

datatype pixel_value = Channels "int list" | Scalar int

type_synonym pixel_access = "nat \<times> nat \<Rightarrow> pixel_value"

record image =
  image_size :: "nat \<times> nat"
  image_load :: "pixel_access option"

type_synonym color = "int \<times> int \<times> int \<times> int"

text \<open>
  The output dictionary keeps insertion order, so it is an association list from colour
  to the runs appended so far.
\<close>

type_synonym color_runs = "(color \<times> Run list) list"

text \<open>
  The guard \<^verbatim>\<open>not isinstance(pixel, tuple) or len(pixel) < 4\<close> followed by the reading of
  the first four components: \<open>None\<close> when the guard rejects the value.
\<close>

fun channels4 :: "pixel_value \<Rightarrow> (int \<times> int \<times> int \<times> int) option" where
  "channels4 (Channels (r # g # b # a # rest)) = Some (r, g, b, a)"
| "channels4 (Channels cs) = None"
| "channels4 (Scalar v) = None"

text \<open>\<^verbatim>\<open>color_runs.setdefault(color, []).append(run)\<close>\<close>

fun setdefault_append :: "('k \<times> 'v list) list \<Rightarrow> 'k \<Rightarrow> 'v \<Rightarrow> ('k \<times> 'v list) list" where
  "setdefault_append [] k v = [(k, [v])]"
| "setdefault_append ((k', vs) # d) k v =
     (if k' = k then (k', vs @ [v]) # d else (k', vs) # setdefault_append d k v)"

text \<open>
  The inner loop (lines 86 to 93): starting at column \<open>x\<close>, advance while the pixel is a
  4-tuple, is not below the threshold and has the red, green and blue of the run. The
  result is the first column that does not continue the run.
\<close>

function extend_run ::
  "pixel_access \<Rightarrow> int \<Rightarrow> nat \<Rightarrow> nat \<Rightarrow> int \<times> int \<times> int \<Rightarrow> nat \<Rightarrow> nat" where
  "extend_run pixels alpha_threshold w y rgb x =
     (if x < w then
        (case channels4 (pixels (x, y)) of
           None \<Rightarrow> x
         | Some (r2, g2, b2, a2) \<Rightarrow>
             if a2 < alpha_threshold \<or> (r2, g2, b2) \<noteq> rgb then x
             else extend_run pixels alpha_threshold w y rgb (x + 1))
      else x)"
  by pat_completeness auto
termination
  by (relation "measure (\<lambda>(pixels, alpha_threshold, w, y, rgb, x). w - x)") auto

declare extend_run.simps [simp del]

lemma extend_run_ge: "x \<le> extend_run pixels alpha_threshold w y rgb x"
proof (induction "w - x" arbitrary: x)
  case 0
  then show ?case by (simp add: extend_run.simps [of _ _ _ _ _ x])
next
  case (Suc n)
  then have "n = w - (x + 1)" by simp
  then have "x + 1 \<le> extend_run pixels alpha_threshold w y rgb (x + 1)"
    by (rule Suc.hyps(1))
  then show ?case
    by (simp add: extend_run.simps [of _ _ _ _ _ x] split: option.split)
qed

lemma extend_run_decreases:
  "x < w \<Longrightarrow> w - extend_run pixels alpha_threshold w y rgb (Suc x) < w - x"
  using extend_run_ge [of "Suc x" pixels alpha_threshold w y rgb] by simp

text \<open>
  The outer loop over one row (lines 74 to 95), threading the dictionary: skip a pixel
  that is no 4-tuple or lies below the threshold, otherwise open a run at \<open>x\<close>, extend it
  and append it under the colour with alpha forced to 255.
\<close>

function scan_row ::
  "pixel_access \<Rightarrow> int \<Rightarrow> nat \<Rightarrow> nat \<Rightarrow> nat \<Rightarrow> color_runs \<Rightarrow> color_runs" where
  "scan_row pixels alpha_threshold w y x color_runs =
     (if x < w then
        (case channels4 (pixels (x, y)) of
           None \<Rightarrow> scan_row pixels alpha_threshold w y (x + 1) color_runs
         | Some (r, g, b, a) \<Rightarrow>
             if a < alpha_threshold
             then scan_row pixels alpha_threshold w y (x + 1) color_runs
             else
               let color = (r, g, b, 255);
                   x_start = x;
                   x' = extend_run pixels alpha_threshold w y (r, g, b) (x + 1);
                   x_end = int x' - 1
               in scan_row pixels alpha_threshold w y x'
                    (setdefault_append color_runs color
                       \<lparr>run_y = int y, run_x1 = int x_start, run_x2 = x_end\<rparr>))
      else color_runs)"
  by pat_completeness auto
termination
  by (relation "measure (\<lambda>(pixels, alpha_threshold, w, y, x, color_runs). w - x)")
    (simp_all add: extend_run_decreases)

text \<open>
  The whole function: fail when no pixel access is available, otherwise scan the rows
  \<open>0, \<dots>, h - 1\<close> in order, starting every row at column 0.
\<close>

declare scan_row.simps [simp del]

definition vectorize :: "image \<Rightarrow> int \<Rightarrow> error + (color_runs \<times> nat \<times> nat)" where
  "vectorize img alpha_threshold =
     (case image_size img of (w, h) \<Rightarrow>
        (case image_load img of
           None \<Rightarrow> Inl PixelLoadFailed
         | Some pixels \<Rightarrow>
             Inr (fold (\<lambda>y color_runs. scan_row pixels alpha_threshold w y 0 color_runs)
                    [0..<h] [],
                  w, h)))"

section \<open>Path emission: \<^verbatim>\<open>svg_writer.runs_to_path_d\<close>\<close>

text \<open>
  The f-string formats each integer as Python's \<^verbatim>\<open>str\<close> does: decimal digits, most
  significant first, no padding, a leading minus sign for a negative number.
\<close>

definition digit_char :: "nat \<Rightarrow> char" where
  "digit_char d = char_of (48 + d)"

function str_nat :: "nat \<Rightarrow> string" where
  "str_nat n = (if n < 10 then [digit_char n] else str_nat (n div 10) @ [digit_char (n mod 10)])"
  by pat_completeness auto
termination
  by (relation "measure id") auto

declare str_nat.simps [simp del]

definition str_int :: "int \<Rightarrow> string" where
  "str_int i = (if i < 0 then CHR ''-'' # str_nat (nat (- i)) else str_nat (nat i))"

text \<open>\<^verbatim>\<open>sep.join(parts)\<close>\<close>

fun str_join :: "string \<Rightarrow> string list \<Rightarrow> string" where
  "str_join sep [] = []"
| "str_join sep [p] = p"
| "str_join sep (p # q # ps) = p @ sep @ str_join sep (q # ps)"

text \<open>The loop appends one formatted piece per run; the pieces are joined by one space.\<close>

definition runs_to_path_d :: "Run list \<Rightarrow> string" where
  "runs_to_path_d runs =
     str_join '' ''
       (foldl (\<lambda>parts run.
            let x1 = run_x1 run;
                x2 = run_x2 run + 1;
                y = run_y run
            in parts @ [''M'' @ str_int x1 @ '','' @ str_int y @ ''H'' @ str_int x2 @
                        ''V'' @ str_int (y + 1) @ ''H'' @ str_int x1 @ ''Z''])
          [] runs)"

section \<open>Vocabulary of the properties\<close>

subsection \<open>Pixels and coverage\<close>

text \<open>
  A run covers the pixels of its row whose column lies in its inclusive interval. The runs
  of a table are those of all its colour keys.
\<close>

definition covers :: "Run \<Rightarrow> int \<times> int \<Rightarrow> bool" where
  "covers r p = (snd p = run_y r \<and> run_x1 r \<le> fst p \<and> fst p \<le> run_x2 r)"

definition table_runs :: "color_runs \<Rightarrow> Run list" where
  "table_runs t = concat (map snd t)"

text \<open>
  The alpha of a pixel value is its fourth channel. A position is solid when it lies
  inside the \<open>w\<close> by \<open>h\<close> grid and the alpha there is at least the threshold.
\<close>

definition alpha :: "pixel_value \<Rightarrow> int option" where
  "alpha v = map_option (\<lambda>(r, g, b, a). a) (channels4 v)"

definition solid :: "pixel_access \<Rightarrow> int \<Rightarrow> nat \<Rightarrow> nat \<Rightarrow> int \<times> int \<Rightarrow> bool" where
  "solid pixels alpha_threshold w h p =
     (0 \<le> fst p \<and> fst p < int w \<and> 0 \<le> snd p \<and> snd p < int h \<and>
      (case alpha (pixels (nat (fst p), nat (snd p))) of
         None \<Rightarrow> False
       | Some a \<Rightarrow> alpha_threshold \<le> a))"

subsection \<open>Reading path data\<close>

text \<open>
  The reading of the emitted text as SVG path data, restricted to the commands that occur:
  \<^verbatim>\<open>M x,y\<close> starts a subpath at \<open>(x, y)\<close>, \<^verbatim>\<open>H x\<close> draws a horizontal line to column \<open>x\<close>,
  \<^verbatim>\<open>V y\<close> a vertical line to row \<open>y\<close>, and \<^verbatim>\<open>Z\<close> closes the subpath back to its start.
  A subpath reads as the list of the corners it visits. Subpaths are separated by exactly
  one space; anything else does not read.
\<close>

definition is_digit :: "char \<Rightarrow> bool" where
  "is_digit c = (48 \<le> (of_char c :: nat) \<and> (of_char c :: nat) \<le> 57)"

definition digit_val :: "char \<Rightarrow> nat" where
  "digit_val c = of_char c - 48"

definition nat_of_digits :: "string \<Rightarrow> nat" where
  "nat_of_digits ds = foldl (\<lambda>n c. 10 * n + digit_val c) 0 ds"

definition read_nat :: "string \<Rightarrow> (nat \<times> string) option" where
  "read_nat s =
     (let ds = takeWhile is_digit s
      in if ds = [] then None else Some (nat_of_digits ds, dropWhile is_digit s))"

fun read_int :: "string \<Rightarrow> (int \<times> string) option" where
  "read_int [] = None"
| "read_int (c # s) =
     (if c = CHR ''-'' then map_option (\<lambda>(n, rest). (- int n, rest)) (read_nat s)
      else map_option (\<lambda>(n, rest). (int n, rest)) (read_nat (c # s)))"

fun expect :: "char \<Rightarrow> string \<Rightarrow> string option" where
  "expect c [] = None"
| "expect c (d # s) = (if c = d then Some s else None)"

definition read_subpath :: "string \<Rightarrow> (int \<times> int) list option" where
  "read_subpath s0 =
     Option.bind (expect CHR ''M'' s0) (\<lambda>s1.
     Option.bind (read_int s1) (\<lambda>(x, s2).
     Option.bind (expect CHR '','' s2) (\<lambda>s3.
     Option.bind (read_int s3) (\<lambda>(y, s4).
     Option.bind (expect CHR ''H'' s4) (\<lambda>s5.
     Option.bind (read_int s5) (\<lambda>(xh, s6).
     Option.bind (expect CHR ''V'' s6) (\<lambda>s7.
     Option.bind (read_int s7) (\<lambda>(yv, s8).
     Option.bind (expect CHR ''H'' s8) (\<lambda>s9.
     Option.bind (read_int s9) (\<lambda>(xb, s10).
     Option.bind (expect CHR ''Z'' s10) (\<lambda>s11.
       if s11 = [] then Some [(x, y), (xh, y), (xh, yv), (xb, yv)] else None)))))))))))"

fun split_space :: "string \<Rightarrow> string list" where
  "split_space [] = [[]]"
| "split_space (c # s) =
     (if c = CHR '' '' then [] # split_space s
      else (case split_space s of [] \<Rightarrow> [[c]] | p # ps \<Rightarrow> (c # p) # ps))"

definition read_path :: "string \<Rightarrow> (int \<times> int) list list option" where
  "read_path s = (if s = [] then Some [] else those (map read_subpath (split_space s)))"

text \<open>The outline of the axis-aligned rectangle between two opposite corners.\<close>

definition rectangle :: "int \<times> int \<Rightarrow> int \<times> int \<Rightarrow> (int \<times> int) list" where
  "rectangle p q = [(fst p, snd p), (fst q, snd p), (fst q, snd q), (fst p, snd q)]"

section \<open>Auxiliary functions of the proofs\<close>

text \<open>
  The colour under which a position starts or continues a run: the red, green and blue
  of a 4-tuple that is not below the threshold, \<open>None\<close> for a position the scan skips.
\<close>

definition opaque_rgb :: "pixel_access \<Rightarrow> int \<Rightarrow> nat \<times> nat \<Rightarrow> (int \<times> int \<times> int) option" where
  "opaque_rgb pixels alpha_threshold p =
     (case channels4 (pixels p) of
        None \<Rightarrow> None
      | Some (r, g, b, a) \<Rightarrow> if a < alpha_threshold then None else Some (r, g, b))"

text \<open>
  The runs one row contributes from column \<open>x\<close> on, each with its colour key, in the order
  in which \<open>scan_row\<close> appends them.
\<close>

function row_events ::
  "pixel_access \<Rightarrow> int \<Rightarrow> nat \<Rightarrow> nat \<Rightarrow> nat \<Rightarrow> (color \<times> Run) list" where
  "row_events pixels alpha_threshold w y x =
     (if x < w then
        (case opaque_rgb pixels alpha_threshold (x, y) of
           None \<Rightarrow> row_events pixels alpha_threshold w y (Suc x)
         | Some rgb \<Rightarrow>
             ((fst rgb, fst (snd rgb), snd (snd rgb), 255),
              \<lparr>run_y = int y, run_x1 = int x,
               run_x2 = int (extend_run pixels alpha_threshold w y rgb (Suc x)) - 1\<rparr>)
             # row_events pixels alpha_threshold w y
                 (extend_run pixels alpha_threshold w y rgb (Suc x)))
      else [])"
  by pat_completeness auto
termination
  by (relation "measure (\<lambda>(pixels, alpha_threshold, w, y, x). w - x)")
    (simp_all add: extend_run_decreases)

declare row_events.simps [simp del]

definition all_events :: "pixel_access \<Rightarrow> int \<Rightarrow> nat \<Rightarrow> nat \<Rightarrow> (color \<times> Run) list" where
  "all_events pixels alpha_threshold w h =
     concat (map (\<lambda>y. row_events pixels alpha_threshold w y 0) [0..<h])"

definition add_event :: "color_runs \<Rightarrow> color \<times> Run \<Rightarrow> color_runs" where
  "add_event t e = setdefault_append t (fst e) (snd e)"

text \<open>The dictionary key of a run colour: alpha forced to 255.\<close>

definition rgb_key :: "int \<times> int \<times> int \<Rightarrow> color" where
  "rgb_key rgb = (fst rgb, fst (snd rgb), snd (snd rgb), 255)"

text \<open>
  Two events are apart when, if they share colour and row, at least one column lies
  strictly between the end of the first and the start of the second.
\<close>

definition apart :: "color \<times> Run \<Rightarrow> color \<times> Run \<Rightarrow> bool" where
  "apart e1 e2 \<longleftrightarrow>
     (fst e1 = fst e2 \<and> run_y (snd e1) = run_y (snd e2) \<longrightarrow>
        run_x2 (snd e1) + 1 < run_x1 (snd e2))"

text \<open>
  The invariant of the dictionary against the events appended so far: keys are unique,
  every key holds exactly the runs of its colour in order of appearance, and every colour
  that occurred is a key.
\<close>

definition grouped :: "color_runs \<Rightarrow> (color \<times> Run) list \<Rightarrow> bool" where
  "grouped t es \<longleftrightarrow>
     distinct (map fst t) \<and>
     (\<forall>(c, rs)\<in>set t. rs = map snd (filter (\<lambda>e. fst e = c) es)) \<and>
     fst ` set es \<subseteq> fst ` set t"

text \<open>The text the loop of \<open>runs_to_path_d\<close> appends for one run.\<close>

definition piece :: "Run \<Rightarrow> string" where
  "piece run = ''M'' @ str_int (run_x1 run) @ '','' @ str_int (run_y run) @ ''H'' @
     str_int (run_x2 run + 1) @ ''V'' @ str_int (run_y run + 1) @ ''H'' @
     str_int (run_x1 run) @ ''Z''"

text \<open>A remainder at which the reading of a number ends: the end of the text or a non-digit.\<close>

definition stops :: "string \<Rightarrow> bool" where
  "stops rest \<longleftrightarrow> (case rest of [] \<Rightarrow> True | c # _ \<Rightarrow> \<not> is_digit c)"

section \<open>The size selector, case by case\<close>

subsection \<open>Facts about the extremum loops\<close>

lemma max_from_mem: "max_from key b xs \<in> set (b # xs)"
  by (induction xs arbitrary: b) auto

lemma max_from_ge_best: "key b \<le> key (max_from key b xs)"
proof (induction xs arbitrary: b)
  case Nil
  show ?case by simp
next
  case (Cons x xs)
  have "key b \<le> key (if key b < key x then x else b)" by auto
  also have "\<dots> \<le> key (max_from key (if key b < key x then x else b) xs)"
    by (rule Cons.IH)
  finally show ?case by simp
qed

lemma max_from_ge: "s \<in> set (b # xs) \<Longrightarrow> key s \<le> key (max_from key b xs)"
proof (induction xs arbitrary: b)
  case Nil
  then show ?case by simp
next
  case (Cons x xs)
  let ?b' = "if key b < key x then x else b"
  from Cons.prems consider "s = b" | "s = x" | "s \<in> set xs" by auto
  then show ?case
  proof cases
    case 1
    have "key b \<le> key ?b'" by auto
    also have "\<dots> \<le> key (max_from key ?b' xs)" by (rule max_from_ge_best)
    finally show ?thesis using 1 by simp
  next
    case 2
    have "key x \<le> key ?b'" by auto
    also have "\<dots> \<le> key (max_from key ?b' xs)" by (rule max_from_ge_best)
    finally show ?thesis using 2 by simp
  next
    case 3
    then have "s \<in> set (?b' # xs)" by simp
    then have "key s \<le> key (max_from key ?b' xs)" by (rule Cons.IH)
    then show ?thesis by simp
  qed
qed

lemma min_from_mem: "min_from key b xs \<in> set (b # xs)"
  by (induction xs arbitrary: b) auto

lemma min_from_le_best: "key (min_from key b xs) \<le> key b"
proof (induction xs arbitrary: b)
  case Nil
  show ?case by simp
next
  case (Cons x xs)
  have "key (min_from key (if key x < key b then x else b) xs)
          \<le> key (if key x < key b then x else b)"
    by (rule Cons.IH)
  also have "\<dots> \<le> key b" by auto
  finally show ?case by simp
qed

lemma min_from_le: "s \<in> set (b # xs) \<Longrightarrow> key (min_from key b xs) \<le> key s"
proof (induction xs arbitrary: b)
  case Nil
  then show ?case by simp
next
  case (Cons x xs)
  let ?b' = "if key x < key b then x else b"
  from Cons.prems consider "s = b" | "s = x" | "s \<in> set xs" by auto
  then show ?case
  proof cases
    case 1
    have "key (min_from key ?b' xs) \<le> key ?b'" by (rule min_from_le_best)
    also have "\<dots> \<le> key b" by auto
    finally show ?thesis using 1 by simp
  next
    case 2
    have "key (min_from key ?b' xs) \<le> key ?b'" by (rule min_from_le_best)
    also have "\<dots> \<le> key x" by auto
    finally show ?thesis using 2 by simp
  next
    case 3
    then have "s \<in> set (?b' # xs)" by simp
    then have "key (min_from key ?b' xs) \<le> key s" by (rule Cons.IH)
    then show ?thesis by simp
  qed
qed

lemma py_max_Inr:
  assumes "xs \<noteq> []"
  shows "\<exists>m. py_max key xs = Inr m \<and> m \<in> set xs \<and> (\<forall>s\<in>set xs. key s \<le> key m)"
proof (cases xs)
  case Nil
  with assms show ?thesis by simp
next
  case (Cons a as)
  have "py_max key xs = Inr (max_from key a as)" using Cons by simp
  moreover have "max_from key a as \<in> set xs" using max_from_mem [of key a as] Cons by simp
  moreover have "\<forall>s\<in>set xs. key s \<le> key (max_from key a as)"
    using max_from_ge [of _ a as key] Cons by simp
  ultimately show ?thesis by blast
qed

lemma py_min_Inr:
  assumes "xs \<noteq> []"
  shows "\<exists>m. py_min key xs = Inr m \<and> m \<in> set xs \<and> (\<forall>s\<in>set xs. key m \<le> key s)"
proof (cases xs)
  case Nil
  with assms show ?thesis by simp
next
  case (Cons a as)
  have "py_min key xs = Inr (min_from key a as)" using Cons by simp
  moreover have "min_from key a as \<in> set xs" using min_from_mem [of key a as] Cons by simp
  moreover have "\<forall>s\<in>set xs. key (min_from key a as) \<le> key s"
    using min_from_le [of _ a as key] Cons by simp
  ultimately show ?thesis by blast
qed

lemma largest_key_inj: "largest_key s = largest_key t \<Longrightarrow> s = t"
  by (simp add: largest_key_def prod_eq_iff)

lemma nearest_key_inj: "nearest_key s = nearest_key t \<Longrightarrow> s = t"
  by (simp add: nearest_key_def prod_eq_iff)

lemma select_size_None:
  assumes "available \<noteq> []"
  shows "\<exists>m. select_size available None = Inr m \<and> m \<in> set available \<and>
    (\<forall>s\<in>set available. largest_key s \<le> largest_key m)"
proof -
  from py_max_Inr [OF assms, of largest_key]
  obtain m where m: "py_max largest_key available = Inr m" "m \<in> set available"
    "\<forall>s\<in>set available. largest_key s \<le> largest_key m"
    by blast
  from assms m(1) have "select_size available None = Inr m"
    by (simp add: select_size_def)
  with m(2,3) show ?thesis by blast
qed

lemma larger_set:
  "set (filter (\<lambda>(w, h). w \<ge> dw \<and> h \<ge> dh) available) =
     {s \<in> set available. dw \<le> fst s \<and> dh \<le> snd s}"
  by (auto simp: case_prod_beta)

lemma select_size_larger:
  assumes "(dw, dh) \<notin> set available"
    and "\<exists>s\<in>set available. dw \<le> fst s \<and> dh \<le> snd s"
  shows "\<exists>m. select_size available (Some (dw, dh)) = Inr m \<and>
    m \<in> set available \<and> dw \<le> fst m \<and> dh \<le> snd m \<and>
    (\<forall>s\<in>set available. dw \<le> fst s \<and> dh \<le> snd s \<longrightarrow> nearest_key m \<le> nearest_key s)"
proof -
  let ?larger = "filter (\<lambda>(w, h). w \<ge> dw \<and> h \<ge> dh) available"
  from assms(2) have ne: "available \<noteq> []" by auto
  from assms(2) have "set ?larger \<noteq> {}" unfolding larger_set by blast
  then have lne: "?larger \<noteq> []" by (metis set_empty)
  from py_max_Inr [OF ne, of largest_key]
  obtain l where l: "py_max largest_key available = Inr l" by blast
  from py_min_Inr [OF lne, of nearest_key]
  obtain m where m: "py_min nearest_key ?larger = Inr m" "m \<in> set ?larger"
    "\<forall>s\<in>set ?larger. nearest_key m \<le> nearest_key s"
    by blast
  have "select_size available (Some (dw, dh)) = Inr m"
    using ne assms(1) l lne m(1) by (simp add: select_size_def)
  moreover from m(2) have "m \<in> set available \<and> dw \<le> fst m \<and> dh \<le> snd m"
    unfolding larger_set by simp
  moreover from m(3)
  have "\<forall>s\<in>set available. dw \<le> fst s \<and> dh \<le> snd s \<longrightarrow> nearest_key m \<le> nearest_key s"
    unfolding larger_set by auto
  ultimately show ?thesis by blast
qed

lemma select_size_fallback:
  assumes "available \<noteq> []"
    and "\<not> (\<exists>s\<in>set available. dw \<le> fst s \<and> dh \<le> snd s)"
  shows "select_size available (Some (dw, dh)) = select_size available None"
proof -
  let ?larger = "filter (\<lambda>(w, h). w \<ge> dw \<and> h \<ge> dh) available"
  from assms(2) have "set ?larger = {}" unfolding larger_set by blast
  then have le: "?larger = []" by (metis set_empty)
  from assms(2) have nin: "(dw, dh) \<notin> set available" by force
  from py_max_Inr [OF assms(1), of largest_key]
  obtain l where l: "py_max largest_key available = Inr l" by blast
  show ?thesis using assms(1) nin l le by (simp add: select_size_def)
qed

lemma select_size_exact:
  assumes "(dw, dh) \<in> set available"
  shows "select_size available (Some (dw, dh)) = Inr (dw, dh)"
proof -
  from assms have ne: "available \<noteq> []" by auto
  from py_max_Inr [OF ne, of largest_key]
  obtain l where l: "py_max largest_key available = Inr l" by blast
  show ?thesis using ne assms l by (simp add: select_size_def)
qed

subsection \<open>The keys, written out\<close>

lemma nearest_key_less:
  "nearest_key r < nearest_key s \<longleftrightarrow>
     \<bar>fst r - snd r\<bar> < \<bar>fst s - snd s\<bar> \<or>
     \<bar>fst r - snd r\<bar> = \<bar>fst s - snd s\<bar> \<and>
       (fst r * snd r < fst s * snd s \<or>
        fst r * snd r = fst s * snd s \<and>
          (fst r < fst s \<or> fst r = fst s \<and> snd r < snd s))"
  by (auto simp: nearest_key_def less_prod_def)

lemma largest_key_less:
  "largest_key s < largest_key r \<longleftrightarrow>
     fst s * snd s < fst r * snd r \<or>
     fst s * snd s = fst r * snd r \<and>
       (fst s < fst r \<or> fst s = fst r \<and> snd s < snd r)"
  by (auto simp: largest_key_def less_prod_def)

lemma nearest_strict:
  assumes "(dw, dh) \<notin> set available"
    and "\<exists>s\<in>set available. dw \<le> fst s \<and> dh \<le> snd s"
  shows "\<exists>r. select_size available (Some (dw, dh)) = Inr r \<and>
    r \<in> set available \<and> dw \<le> fst r \<and> dh \<le> snd r \<and>
    (\<forall>s\<in>set available. dw \<le> fst s \<and> dh \<le> snd s \<and> s \<noteq> r \<longrightarrow>
        nearest_key r < nearest_key s)"
proof -
  from select_size_larger [OF assms]
  obtain m where m: "select_size available (Some (dw, dh)) = Inr m"
    "m \<in> set available" "dw \<le> fst m" "dh \<le> snd m"
    "\<forall>s\<in>set available. dw \<le> fst s \<and> dh \<le> snd s \<longrightarrow> nearest_key m \<le> nearest_key s"
    by blast
  have "nearest_key m < nearest_key s"
    if "s \<in> set available" "dw \<le> fst s" "dh \<le> snd s" "s \<noteq> m" for s
  proof -
    from that m(5) have "nearest_key m \<le> nearest_key s" by blast
    moreover from that(4) have "nearest_key m \<noteq> nearest_key s"
      using nearest_key_inj by blast
    ultimately show ?thesis by simp
  qed
  with m(1-4) show ?thesis by blast
qed

lemma largest_strict:
  assumes "available \<noteq> []"
  shows "\<exists>r. select_size available None = Inr r \<and> r \<in> set available \<and>
    (\<forall>s\<in>set available. s \<noteq> r \<longrightarrow> largest_key s < largest_key r)"
proof -
  from select_size_None [OF assms]
  obtain m where m: "select_size available None = Inr m" "m \<in> set available"
    "\<forall>s\<in>set available. largest_key s \<le> largest_key m"
    by blast
  have "largest_key s < largest_key m" if "s \<in> set available" "s \<noteq> m" for s
  proof -
    from that m(3) have "largest_key s \<le> largest_key m" by blast
    moreover from that(2) have "largest_key s \<noteq> largest_key m"
      using largest_key_inj by blast
    ultimately show ?thesis by simp
  qed
  with m(1,2) show ?thesis by blast
qed

section \<open>Properties of the size selector\<close>

text \<open>
  Claim C1 (nearest larger). For a non-empty list of available sizes and a desired size
  \<open>(dw, dh)\<close> that is not itself available, if some available size is at least as wide and
  at least as tall as the desired one, then \<open>select_size\<close> returns one of exactly those
  candidates, \<open>(rw, rh)\<close>, and for every other candidate \<open>(sw, sh)\<close> the tuple
  \<open>(|rw - rh|, rw * rh, rw, rh)\<close> is strictly below \<open>(|sw - sh|, sw * sh, sw, sh)\<close> in the
  lexicographic order, written out: a smaller distance from square, or the same distance
  and a smaller area, or the same of both and a smaller width, or the same of all three
  and a smaller height. So the result is the unique strict minimum. The witness holds the
  example of the specification, where \<open>(40,40)\<close> is returned, and inputs on which the
  components decide in turn: squareness against area, area, and width.
\<close>

theorem select_size_nearest_larger:
  assumes "available \<noteq> []"
    and "(dw, dh) \<notin> set available"
    and "\<exists>s\<in>set available. dw \<le> fst s \<and> dh \<le> snd s"
  shows "\<exists>rw rh. select_size available (Some (dw, dh)) = Inr (rw, rh) \<and>
    (rw, rh) \<in> set available \<and> dw \<le> rw \<and> dh \<le> rh \<and>
    (\<forall>(sw, sh)\<in>set available. dw \<le> sw \<and> dh \<le> sh \<and> (sw, sh) \<noteq> (rw, rh) \<longrightarrow>
        (\<bar>rw - rh\<bar>, rw * rh, rw, rh) < (\<bar>sw - sh\<bar>, sw * sh, sw, sh) \<and>
        (\<bar>rw - rh\<bar> < \<bar>sw - sh\<bar> \<or>
         \<bar>rw - rh\<bar> = \<bar>sw - sh\<bar> \<and>
           (rw * rh < sw * sh \<or>
            rw * rh = sw * sh \<and> (rw < sw \<or> rw = sw \<and> rh < sh))))"
proof -
  from nearest_strict [OF assms(2,3)]
  obtain r where r: "select_size available (Some (dw, dh)) = Inr r"
    "r \<in> set available" "dw \<le> fst r" "dh \<le> snd r"
    "\<forall>s\<in>set available. dw \<le> fst s \<and> dh \<le> snd s \<and> s \<noteq> r \<longrightarrow>
        nearest_key r < nearest_key s"
    by blast
  obtain rw rh where rr: "r = (rw, rh)" by (cases r)
  have "(\<bar>rw - rh\<bar>, rw * rh, rw, rh) < (\<bar>sw - sh\<bar>, sw * sh, sw, sh) \<and>
        (\<bar>rw - rh\<bar> < \<bar>sw - sh\<bar> \<or>
         \<bar>rw - rh\<bar> = \<bar>sw - sh\<bar> \<and>
           (rw * rh < sw * sh \<or>
            rw * rh = sw * sh \<and> (rw < sw \<or> rw = sw \<and> rh < sh)))"
    if "(sw, sh) \<in> set available" "dw \<le> sw" "dh \<le> sh" "(sw, sh) \<noteq> (rw, rh)" for sw sh
  proof -
    from that r(5) rr have k: "nearest_key (rw, rh) < nearest_key (sw, sh)" by auto
    then have "(\<bar>rw - rh\<bar>, rw * rh, rw, rh) < (\<bar>sw - sh\<bar>, sw * sh, sw, sh)"
      by (simp add: nearest_key_def)
    moreover from k have "\<bar>rw - rh\<bar> < \<bar>sw - sh\<bar> \<or>
         \<bar>rw - rh\<bar> = \<bar>sw - sh\<bar> \<and>
           (rw * rh < sw * sh \<or>
            rw * rh = sw * sh \<and> (rw < sw \<or> rw = sw \<and> rh < sh))"
      by (simp add: nearest_key_less)
    ultimately show ?thesis by blast
  qed
  with r(1-4) rr show ?thesis by auto
qed

theorem select_size_nearest_larger_witness:
  "select_size [(40, 40), (50, 30), (60, 60)] (Some (35, 35)) = Inr (40, 40) \<and>
   select_size [(48, 20), (64, 64)] (Some (10, 10)) = Inr (64, 64) \<and>
   select_size [(60, 60), (30, 20), (20, 30)] (Some (10, 10)) = Inr (60, 60) \<and>
   select_size [(30, 20), (20, 30)] (Some (10, 10)) = Inr (20, 30) \<and>
   select_size [(20, 40), (15, 35), (15, 36)] (Some (10, 10)) = Inr (15, 35)"
proof -
  have general: "select_size av (Some (dw, dh)) = Inr (mw, mh)"
    if "av \<noteq> []" "(dw, dh) \<notin> set av" "(mw, mh) \<in> set av" "dw \<le> mw" "dh \<le> mh"
      "\<forall>(sw, sh)\<in>set av. dw \<le> sw \<and> dh \<le> sh \<and> (sw, sh) \<noteq> (mw, mh) \<longrightarrow>
         \<not> (\<bar>sw - sh\<bar> < \<bar>mw - mh\<bar> \<or>
         \<bar>sw - sh\<bar> = \<bar>mw - mh\<bar> \<and>
           (sw * sh < mw * mh \<or>
            sw * sh = mw * mh \<and> (sw < mw \<or> sw = mw \<and> sh < mh)))"
    for av :: "size list" and dw dh mw mh
  proof -
    from that(3,4,5) have ex: "\<exists>s\<in>set av. dw \<le> fst s \<and> dh \<le> snd s" by force
    from select_size_nearest_larger [OF that(1,2) ex]
    obtain rw rh where r: "select_size av (Some (dw, dh)) = Inr (rw, rh)"
      and rin: "(rw, rh) \<in> set av" and rw: "dw \<le> rw" and rh: "dh \<le> rh"
      and rmin: "\<forall>(sw, sh)\<in>set av. dw \<le> sw \<and> dh \<le> sh \<and> (sw, sh) \<noteq> (rw, rh) \<longrightarrow>
          (\<bar>rw - rh\<bar>, rw * rh, rw, rh) < (\<bar>sw - sh\<bar>, sw * sh, sw, sh) \<and>
          (\<bar>rw - rh\<bar> < \<bar>sw - sh\<bar> \<or>
           \<bar>rw - rh\<bar> = \<bar>sw - sh\<bar> \<and>
             (rw * rh < sw * sh \<or>
              rw * rh = sw * sh \<and> (rw < sw \<or> rw = sw \<and> rh < sh)))"
      by (elim exE conjE)
    have "(rw, rh) = (mw, mh)"
    proof (rule ccontr)
      assume ne: "(rw, rh) \<noteq> (mw, mh)"
      then have ne': "(mw, mh) \<noteq> (rw, rh)" by (rule not_sym)
      from bspec [OF rmin that(3)] that(4,5) ne'
      have "\<bar>rw - rh\<bar> < \<bar>mw - mh\<bar> \<or>
           \<bar>rw - rh\<bar> = \<bar>mw - mh\<bar> \<and>
             (rw * rh < mw * mh \<or>
              rw * rh = mw * mh \<and> (rw < mw \<or> rw = mw \<and> rh < mh))"
        by (simp only: case_prod_conv) blast
      moreover from bspec [OF that(6) rin] rw rh ne
      have "\<not> (\<bar>rw - rh\<bar> < \<bar>mw - mh\<bar> \<or>
           \<bar>rw - rh\<bar> = \<bar>mw - mh\<bar> \<and>
             (rw * rh < mw * mh \<or>
              rw * rh = mw * mh \<and> (rw < mw \<or> rw = mw \<and> rh < mh)))"
        by (simp only: case_prod_conv) blast
      ultimately show False by (rule notE [rotated])
    qed
    with r show ?thesis by simp
  qed
  have "select_size [(40, 40), (50, 30), (60, 60)] (Some (35, 35)) = Inr (40, 40)"
    by (rule general) simp_all
  moreover have "select_size [(48, 20), (64, 64)] (Some (10, 10)) = Inr (64, 64)"
    by (rule general) simp_all
  moreover have "select_size [(60, 60), (30, 20), (20, 30)] (Some (10, 10)) = Inr (60, 60)"
    by (rule general) simp_all
  moreover have "select_size [(30, 20), (20, 30)] (Some (10, 10)) = Inr (20, 30)"
    by (rule general) simp_all
  moreover have "select_size [(20, 40), (15, 35), (15, 36)] (Some (10, 10)) = Inr (15, 35)"
    by (rule general) simp_all
  ultimately show ?thesis by blast
qed

text \<open>
  Claim C3 (no desired size). For a non-empty list of available sizes, \<open>select_size\<close>
  with \<open>None\<close> returns an available size \<open>(rw, rh)\<close> such that for every other available
  size \<open>(sw, sh)\<close> the tuple \<open>(sw * sh, sw, sh)\<close> is strictly below \<open>(rw * rh, rw, rh)\<close> in
  the lexicographic order, written out: a smaller area, or the same area and a smaller
  width, or the same of both and a smaller height. So the result has maximum area, ties
  broken by larger width, then larger height. The witness holds inputs on which the area
  decides against the width, and inputs of equal area on which the width decides.
\<close>

theorem select_size_none_is_largest:
  assumes "available \<noteq> []"
  shows "\<exists>rw rh. select_size available None = Inr (rw, rh) \<and> (rw, rh) \<in> set available \<and>
    (\<forall>(sw, sh)\<in>set available. (sw, sh) \<noteq> (rw, rh) \<longrightarrow>
        (sw * sh, sw, sh) < (rw * rh, rw, rh) \<and>
        (sw * sh < rw * rh \<or>
         sw * sh = rw * rh \<and> (sw < rw \<or> sw = rw \<and> sh < rh)))"
proof -
  from largest_strict [OF assms]
  obtain r where r: "select_size available None = Inr r" "r \<in> set available"
    "\<forall>s\<in>set available. s \<noteq> r \<longrightarrow> largest_key s < largest_key r"
    by blast
  obtain rw rh where rr: "r = (rw, rh)" by (cases r)
  have "(sw * sh, sw, sh) < (rw * rh, rw, rh) \<and>
        (sw * sh < rw * rh \<or>
         sw * sh = rw * rh \<and> (sw < rw \<or> sw = rw \<and> sh < rh))"
    if "(sw, sh) \<in> set available" "(sw, sh) \<noteq> (rw, rh)" for sw sh
  proof -
    from that r(3) rr have k: "largest_key (sw, sh) < largest_key (rw, rh)" by auto
    then have "(sw * sh, sw, sh) < (rw * rh, rw, rh)" by (simp add: largest_key_def)
    moreover from k have "sw * sh < rw * rh \<or>
         sw * sh = rw * rh \<and> (sw < rw \<or> sw = rw \<and> sh < rh)"
      by (simp add: largest_key_less)
    ultimately show ?thesis by blast
  qed
  with r(1,2) rr show ?thesis by auto
qed

theorem select_size_none_is_largest_witness:
  "select_size [(100, 1), (20, 20)] None = Inr (20, 20) \<and>
   select_size [(16, 16), (32, 32), (64, 64)] None = Inr (64, 64) \<and>
   select_size [(32, 32), (64, 16), (16, 64)] None = Inr (64, 16) \<and>
   select_size [(16, 64), (64, 16)] None = Inr (64, 16)"
proof -
  have general: "select_size av None = Inr (mw, mh)"
    if "av \<noteq> []" "(mw, mh) \<in> set av"
      "\<forall>(sw, sh)\<in>set av. (sw, sh) \<noteq> (mw, mh) \<longrightarrow>
         \<not> (mw * mh < sw * sh \<or>
            mw * mh = sw * sh \<and> (mw < sw \<or> mw = sw \<and> mh < sh))"
    for av :: "size list" and mw mh
  proof -
    from select_size_none_is_largest [OF that(1)]
    obtain rw rh where r: "select_size av None = Inr (rw, rh)"
      and rin: "(rw, rh) \<in> set av"
      and rmax: "\<forall>(sw, sh)\<in>set av. (sw, sh) \<noteq> (rw, rh) \<longrightarrow>
          (sw * sh, sw, sh) < (rw * rh, rw, rh) \<and>
          (sw * sh < rw * rh \<or>
           sw * sh = rw * rh \<and> (sw < rw \<or> sw = rw \<and> sh < rh))"
      by (elim exE conjE)
    have "(rw, rh) = (mw, mh)"
    proof (rule ccontr)
      assume ne: "(rw, rh) \<noteq> (mw, mh)"
      then have ne': "(mw, mh) \<noteq> (rw, rh)" by (rule not_sym)
      from bspec [OF rmax that(2)] ne'
      have "mw * mh < rw * rh \<or>
           mw * mh = rw * rh \<and> (mw < rw \<or> mw = rw \<and> mh < rh)"
        by (simp only: case_prod_conv) blast
      moreover from bspec [OF that(3) rin] ne
      have "\<not> (mw * mh < rw * rh \<or>
           mw * mh = rw * rh \<and> (mw < rw \<or> mw = rw \<and> mh < rh))"
        by (simp only: case_prod_conv) blast
      ultimately show False by (rule notE [rotated])
    qed
    with r show ?thesis by simp
  qed
  have "select_size [(100, 1), (20, 20)] None = Inr (20, 20)"
    by (rule general) simp_all
  moreover have "select_size [(16, 16), (32, 32), (64, 64)] None = Inr (64, 64)"
    by (rule general) simp_all
  moreover have "select_size [(32, 32), (64, 16), (16, 64)] None = Inr (64, 16)"
    by (rule general) simp_all
  moreover have "select_size [(16, 64), (64, 16)] None = Inr (64, 16)"
    by (rule general) simp_all
  ultimately show ?thesis by blast
qed

text \<open>
  Claim C4 (fallback). For a non-empty list of available sizes and a desired size
  \<open>(dw, dh)\<close>, if no available size is at least \<open>dw\<close> wide and at least \<open>dh\<close> tall, then
  \<open>select_size\<close> returns a size, and it is the size returned when no size is desired.
\<close>

theorem select_size_fallback_is_largest:
  assumes "available \<noteq> []"
    and "\<not> (\<exists>s\<in>set available. dw \<le> fst s \<and> dh \<le> snd s)"
  shows "\<exists>r. select_size available (Some (dw, dh)) = Inr r \<and>
    select_size available None = Inr r"
proof -
  from select_size_None [OF assms(1)]
  obtain m where "select_size available None = Inr m" by blast
  with select_size_fallback [OF assms] show ?thesis by simp
qed

theorem select_size_fallback_is_largest_witness:
  "select_size [(16, 16), (32, 32)] (Some (64, 64)) = Inr (32, 32)"
proof -
  let ?av = "[(16, 16), (32, 32)] :: size list"
  have "\<exists>r. select_size ?av (Some (64, 64)) = Inr r \<and> select_size ?av None = Inr r"
    by (rule select_size_fallback_is_largest) simp_all
  moreover have "select_size ?av None = Inr (32, 32)"
    by (simp add: select_size_def largest_key_def less_prod_def)
  ultimately show ?thesis by auto
qed

text \<open>
  Claim C7 (exact match). For a non-empty list of available sizes and a desired size
  that is one of them, \<open>select_size\<close> returns exactly the desired size.
\<close>

theorem select_size_exact_match:
  assumes "available \<noteq> []"
    and "d \<in> set available"
  shows "select_size available (Some d) = Inr d"
  using select_size_exact [of "fst d" "snd d" available] assms(2) by simp

theorem select_size_exact_match_witness:
  "select_size [(16, 16), (32, 32), (64, 64)] (Some (32, 32)) = Inr (32, 32)"
  by (rule select_size_exact_match) simp_all

text \<open>
  Claim C9 (empty input). Whatever the desired argument is, \<open>select_size\<close> on the empty
  list fails with the error raised for "No sizes available in ICO"; it returns no size.
\<close>

theorem select_size_empty_fails:
  "select_size [] desired = Inl NoSizesAvailable \<and> (\<forall>r. select_size [] desired \<noteq> Inr r)"
  by (simp add: select_size_def)

theorem select_size_empty_fails_witness:
  "select_size [] (Some (32, 32)) = Inl NoSizesAvailable \<and>
   select_size [] None = Inl NoSizesAvailable"
  using select_size_empty_fails [of "Some (32, 32)"] select_size_empty_fails [of None]
  by simp

text \<open>
  Claim C10 (membership). For a non-empty list of available sizes and any desired
  argument, \<open>select_size\<close> returns a size, and that size is one of the available ones.
\<close>

theorem select_size_returns_available:
  assumes "available \<noteq> []"
  shows "\<exists>r. select_size available desired = Inr r \<and> r \<in> set available"
proof (cases desired)
  case None
  with select_size_None [OF assms] show ?thesis by blast
next
  case (Some d)
  obtain dw dh where d: "d = (dw, dh)" by (cases d)
  show ?thesis
  proof (cases "(dw, dh) \<in> set available")
    case True
    with select_size_exact [OF True] Some d show ?thesis by simp
  next
    case nin: False
    show ?thesis
    proof (cases "\<exists>s\<in>set available. dw \<le> fst s \<and> dh \<le> snd s")
      case True
      from select_size_larger [OF nin True] Some d show ?thesis by blast
    next
      case False
      from select_size_fallback [OF assms False] select_size_None [OF assms] Some d
      show ?thesis by auto
    qed
  qed
qed

theorem select_size_returns_available_witness:
  "\<exists>r. select_size [(16, 32), (32, 32), (64, 32)] (Some (24, 24)) = Inr r \<and>
       r \<in> {(16, 32), (32, 32), (64, 32)}"
  using select_size_returns_available [of "[(16, 32), (32, 32), (64, 32)]" "Some (24, 24)"]
  by simp

section \<open>The vectoriser as a list of events\<close>

subsection \<open>Unfolding the loops\<close>

lemma extend_run_unfold:
  "extend_run pixels thr w y rgb x =
     (if x < w \<and> opaque_rgb pixels thr (x, y) = Some rgb
      then extend_run pixels thr w y rgb (Suc x) else x)"
  by (subst extend_run.simps) (auto simp: opaque_rgb_def split: option.splits)

lemma scan_row_unfold:
  "scan_row pixels thr w y x cr =
     (if x < w then
        (case opaque_rgb pixels thr (x, y) of
           None \<Rightarrow> scan_row pixels thr w y (Suc x) cr
         | Some rgb \<Rightarrow>
             scan_row pixels thr w y (extend_run pixels thr w y rgb (Suc x))
               (setdefault_append cr (fst rgb, fst (snd rgb), snd (snd rgb), 255)
                  \<lparr>run_y = int y, run_x1 = int x,
                   run_x2 = int (extend_run pixels thr w y rgb (Suc x)) - 1\<rparr>))
      else cr)"
  by (subst scan_row.simps) (auto simp: opaque_rgb_def Let_def split: option.splits)

lemma extend_run_le: "x \<le> w \<Longrightarrow> extend_run pixels thr w y rgb x \<le> w"
proof (induction "w - x" arbitrary: x)
  case 0
  then show ?case by (simp add: extend_run_unfold [of _ _ _ _ _ x])
next
  case (Suc n)
  then have "n = w - Suc x" "Suc x \<le> w" by simp_all
  then have "extend_run pixels thr w y rgb (Suc x) \<le> w" by (rule Suc.hyps(1))
  with Suc.prems show ?case by (simp add: extend_run_unfold [of _ _ _ _ _ x])
qed

lemma extend_run_same:
  "x \<le> k \<Longrightarrow> k < extend_run pixels thr w y rgb x \<Longrightarrow> opaque_rgb pixels thr (k, y) = Some rgb"
proof (induction "w - x" arbitrary: x)
  case 0
  then show ?case by (simp add: extend_run_unfold [of _ _ _ _ _ x])
next
  case (Suc n)
  show ?case
  proof (cases "x < w \<and> opaque_rgb pixels thr (x, y) = Some rgb")
    case False
    with Suc.prems show ?thesis by (simp add: extend_run_unfold [of _ _ _ _ _ x])
  next
    case True
    show ?thesis
    proof (cases "k = x")
      case True
      with \<open>x < w \<and> opaque_rgb pixels thr (x, y) = Some rgb\<close> show ?thesis by simp
    next
      case False
      with Suc.prems have "Suc x \<le> k" by simp
      moreover from True Suc.prems have "k < extend_run pixels thr w y rgb (Suc x)"
        by (simp add: extend_run_unfold [of _ _ _ _ _ x])
      moreover from Suc.hyps(2) have "n = w - Suc x" by simp
      ultimately show ?thesis using Suc.hyps(1) by blast
    qed
  qed
qed

lemma extend_run_stops:
  "extend_run pixels thr w y rgb x < w \<Longrightarrow>
   opaque_rgb pixels thr (extend_run pixels thr w y rgb x, y) \<noteq> Some rgb"
proof (induction "w - x" arbitrary: x)
  case 0
  then show ?case by (simp add: extend_run_unfold [of _ _ _ _ _ x])
next
  case (Suc n)
  show ?case
  proof (cases "x < w \<and> opaque_rgb pixels thr (x, y) = Some rgb")
    case False
    with Suc.prems show ?thesis by (auto simp add: extend_run_unfold [of _ _ _ _ _ x])
  next
    case True
    then have eq: "extend_run pixels thr w y rgb x = extend_run pixels thr w y rgb (Suc x)"
      by (simp add: extend_run_unfold [of _ _ _ _ _ x])
    from Suc.hyps(2) have "n = w - Suc x" by simp
    with Suc.hyps(1) [of "Suc x"] Suc.prems eq show ?thesis by simp
  qed
qed

lemma scan_row_events:
  "scan_row pixels thr w y x cr = foldl add_event cr (row_events pixels thr w y x)"
proof (induction "w - x" arbitrary: x cr rule: less_induct)
  case less
  show ?case
  proof (cases "x < w")
    case False
    then show ?thesis
      by (simp add: scan_row_unfold [of _ _ _ _ x] row_events.simps [of _ _ _ _ x])
  next
    case True
    show ?thesis
    proof (cases "opaque_rgb pixels thr (x, y)")
      case None
      from True have "w - Suc x < w - x" by simp
      from less [OF this] True None show ?thesis
        by (simp add: scan_row_unfold [of _ _ _ _ x] row_events.simps [of _ _ _ _ x])
    next
      case (Some rgb)
      let ?e = "extend_run pixels thr w y rgb (Suc x)"
      from True have "w - ?e < w - x" by (rule extend_run_decreases)
      from less [OF this] True Some show ?thesis
        by (simp add: scan_row_unfold [of _ _ _ _ x] row_events.simps [of _ _ _ _ x]
            add_event_def)
    qed
  qed
qed

lemma rows_events:
  "fold (\<lambda>y cr. scan_row pixels thr w y 0 cr) [0..<h] cr =
   foldl add_event cr (all_events pixels thr w h)"
  by (induction h arbitrary: cr) (simp_all add: all_events_def scan_row_events)

lemma vectorize_events:
  assumes "image_load img = Some pixels" and "image_size img = (w, h)"
  shows "vectorize img thr = Inr (foldl add_event [] (all_events pixels thr w h), w, h)"
  using assms by (simp add: vectorize_def rows_events)

subsection \<open>The runs of one row\<close>

lemma rgb_key_inj: "rgb_key a = rgb_key b \<Longrightarrow> a = b"
  by (simp add: rgb_key_def prod_eq_iff)

lemma row_events_stop: "\<not> x < w \<Longrightarrow> row_events pixels thr w y x = []"
  by (simp add: row_events.simps [of _ _ _ _ x])

lemma row_events_skip:
  "x < w \<Longrightarrow> opaque_rgb pixels thr (x, y) = None \<Longrightarrow>
   row_events pixels thr w y x = row_events pixels thr w y (Suc x)"
  by (simp add: row_events.simps [of _ _ _ _ x])

lemma row_events_run:
  "x < w \<Longrightarrow> opaque_rgb pixels thr (x, y) = Some rgb \<Longrightarrow>
   row_events pixels thr w y x =
     (rgb_key rgb, \<lparr>run_y = int y, run_x1 = int x,
        run_x2 = int (extend_run pixels thr w y rgb (Suc x)) - 1\<rparr>)
     # row_events pixels thr w y (extend_run pixels thr w y rgb (Suc x))"
  by (simp add: row_events.simps [of _ _ _ _ x] rgb_key_def)

lemma row_events_shape:
  "x \<le> w \<Longrightarrow> e \<in> set (row_events pixels thr w y x) \<Longrightarrow>
   run_y (snd e) = int y \<and> int x \<le> run_x1 (snd e) \<and> run_x1 (snd e) \<le> run_x2 (snd e) \<and>
   run_x2 (snd e) < int w \<and>
   (\<exists>rgb. opaque_rgb pixels thr (nat (run_x1 (snd e)), y) = Some rgb \<and> fst e = rgb_key rgb)"
proof (induction "w - x" arbitrary: x rule: less_induct)
  case less
  show ?case
  proof (cases "x < w")
    case False
    with less.prems(2) show ?thesis by (simp add: row_events_stop)
  next
    case True
    show ?thesis
    proof (cases "opaque_rgb pixels thr (x, y)")
      case None
      from True have "w - Suc x < w - x" "Suc x \<le> w" by simp_all
      moreover from less.prems(2) True None
      have "e \<in> set (row_events pixels thr w y (Suc x))" by (simp add: row_events_skip)
      ultimately have "run_y (snd e) = int y \<and> int (Suc x) \<le> run_x1 (snd e) \<and>
        run_x1 (snd e) \<le> run_x2 (snd e) \<and> run_x2 (snd e) < int w \<and>
        (\<exists>rgb. opaque_rgb pixels thr (nat (run_x1 (snd e)), y) = Some rgb \<and> fst e = rgb_key rgb)"
        by (rule less.hyps)
      then show ?thesis by auto
    next
      case (Some rgb)
      let ?e = "extend_run pixels thr w y rgb (Suc x)"
      have ge: "Suc x \<le> ?e" by (rule extend_run_ge)
      from True have le: "?e \<le> w" by (simp add: extend_run_le)
      from less.prems(2) True Some
      consider "e = (rgb_key rgb, \<lparr>run_y = int y, run_x1 = int x, run_x2 = int ?e - 1\<rparr>)"
        | "e \<in> set (row_events pixels thr w y ?e)"
        by (auto simp: row_events_run)
      then show ?thesis
      proof cases
        case 1
        with ge le Some show ?thesis by auto
      next
        case 2
        from True have "w - ?e < w - x" by (rule extend_run_decreases)
        from less.hyps [OF this le 2] ge show ?thesis by auto
      qed
    qed
  qed
qed

lemma row_events_count:
  "x \<le> w \<Longrightarrow>
   length (filter (\<lambda>e. covers (snd e) p) (row_events pixels thr w y x)) =
     (if snd p = int y \<and> int x \<le> fst p \<and> fst p < int w \<and>
         opaque_rgb pixels thr (nat (fst p), y) \<noteq> None then 1 else 0)"
proof (induction "w - x" arbitrary: x rule: less_induct)
  case less
  show ?case
  proof (cases "x < w")
    case False
    then show ?thesis by (simp add: row_events_stop)
  next
    case True
    show ?thesis
    proof (cases "opaque_rgb pixels thr (x, y)")
      case None
      from True have "w - Suc x < w - x" "Suc x \<le> w" by simp_all
      then have "length (filter (\<lambda>e. covers (snd e) p) (row_events pixels thr w y (Suc x))) =
        (if snd p = int y \<and> int (Suc x) \<le> fst p \<and> fst p < int w \<and>
            opaque_rgb pixels thr (nat (fst p), y) \<noteq> None then 1 else 0)"
        by (rule less.hyps)
      moreover have "opaque_rgb pixels thr (nat (fst p), y) = None" if "fst p = int x"
        using that None by simp
      then have "(snd p = int y \<and> int (Suc x) \<le> fst p \<and> fst p < int w \<and>
            opaque_rgb pixels thr (nat (fst p), y) \<noteq> None) \<longleftrightarrow>
           (snd p = int y \<and> int x \<le> fst p \<and> fst p < int w \<and>
            opaque_rgb pixels thr (nat (fst p), y) \<noteq> None)"
        by (cases "fst p = int x") auto
      ultimately show ?thesis using True None
        by (simp add: row_events_skip)
    next
      case (Some rgb)
      let ?e = "extend_run pixels thr w y rgb (Suc x)"
      let ?r = "\<lparr>run_y = int y, run_x1 = int x, run_x2 = int ?e - 1\<rparr>"
      have ge: "Suc x \<le> ?e" by (rule extend_run_ge)
      from True have le: "?e \<le> w" by (simp add: extend_run_le)
      from True have "w - ?e < w - x" by (rule extend_run_decreases)
      from less.hyps [OF this le]
      have IH: "length (filter (\<lambda>e. covers (snd e) p) (row_events pixels thr w y ?e)) =
        (if snd p = int y \<and> int ?e \<le> fst p \<and> fst p < int w \<and>
            opaque_rgb pixels thr (nat (fst p), y) \<noteq> None then 1 else 0)" .
      have inside: "opaque_rgb pixels thr (nat (fst p), y) \<noteq> None"
        if "int x \<le> fst p" "fst p < int ?e"
      proof (cases "nat (fst p) = x")
        case True
        with Some show ?thesis by simp
      next
        case False
        with that have "Suc x \<le> nat (fst p)" "nat (fst p) < ?e" by linarith+
        then have "opaque_rgb pixels thr (nat (fst p), y) = Some rgb" by (rule extend_run_same)
        then show ?thesis by simp
      qed
      have cov: "covers ?r p \<longleftrightarrow> snd p = int y \<and> int x \<le> fst p \<and> fst p < int ?e"
        by (auto simp: covers_def)
      have step: "length (filter (\<lambda>e. covers (snd e) p) (row_events pixels thr w y x)) =
        (if covers ?r p then 1 else 0) +
        length (filter (\<lambda>e. covers (snd e) p) (row_events pixels thr w y ?e))"
        by (simp add: row_events_run [OF True Some])
      define A where "A \<longleftrightarrow> opaque_rgb pixels thr (nat (fst p), y) \<noteq> None"
      from inside have inA: "int x \<le> fst p \<Longrightarrow> fst p < int ?e \<Longrightarrow> A"
        unfolding A_def by blast
      from IH have IH': "length (filter (\<lambda>e. covers (snd e) p) (row_events pixels thr w y ?e)) =
        (if snd p = int y \<and> int ?e \<le> fst p \<and> fst p < int w \<and> A then 1 else 0)"
        unfolding A_def .
      from ge le have ord: "int x < int ?e" "int ?e \<le> int w" by simp_all
      have "(if covers ?r p then 1 else 0) +
        (if snd p = int y \<and> int ?e \<le> fst p \<and> fst p < int w \<and> A then 1 else 0) =
        (if snd p = int y \<and> int x \<le> fst p \<and> fst p < int w \<and> A then 1 else (0::nat))"
      proof (cases "snd p = int y \<and> int x \<le> fst p \<and> fst p < int ?e")
        case True
        with inA have A by blast
        with True cov ord show ?thesis by simp
      next
        case False
        with cov have nc: "\<not> covers ?r p" by blast
        from False ord
        have "(snd p = int y \<and> int ?e \<le> fst p \<and> fst p < int w \<and> A) \<longleftrightarrow>
              (snd p = int y \<and> int x \<le> fst p \<and> fst p < int w \<and> A)"
          by linarith
        with nc show ?thesis by simp
      qed
      with step IH' show ?thesis unfolding A_def by simp
    qed
  qed
qed

lemma row_events_apart:
  "x \<le> w \<Longrightarrow> sorted_wrt apart (row_events pixels thr w y x)"
proof (induction "w - x" arbitrary: x rule: less_induct)
  case less
  show ?case
  proof (cases "x < w")
    case False
    then show ?thesis by (simp add: row_events_stop)
  next
    case True
    show ?thesis
    proof (cases "opaque_rgb pixels thr (x, y)")
      case None
      from True have "w - Suc x < w - x" "Suc x \<le> w" by simp_all
      then have "sorted_wrt apart (row_events pixels thr w y (Suc x))" by (rule less.hyps)
      with True None show ?thesis by (simp add: row_events_skip)
    next
      case (Some rgb)
      let ?e = "extend_run pixels thr w y rgb (Suc x)"
      let ?ev = "(rgb_key rgb, \<lparr>run_y = int y, run_x1 = int x, run_x2 = int ?e - 1\<rparr>)"
      from True have le: "?e \<le> w" by (simp add: extend_run_le)
      from True have "w - ?e < w - x" by (rule extend_run_decreases)
      from less.hyps [OF this le]
      have IH: "sorted_wrt apart (row_events pixels thr w y ?e)" .
      have "apart ?ev e2" if e2: "e2 \<in> set (row_events pixels thr w y ?e)" for e2
      proof -
        from row_events_shape [OF le e2]
        obtain rgb2 where s: "int ?e \<le> run_x1 (snd e2)" "run_x1 (snd e2) \<le> run_x2 (snd e2)"
          "run_x2 (snd e2) < int w"
          "opaque_rgb pixels thr (nat (run_x1 (snd e2)), y) = Some rgb2" "fst e2 = rgb_key rgb2"
          by blast
        have "int ?e < run_x1 (snd e2)" if same: "rgb_key rgb = fst e2"
        proof (rule ccontr)
          assume "\<not> int ?e < run_x1 (snd e2)"
          with s(1) have eq: "run_x1 (snd e2) = int ?e" by simp
          with s(2,3) have "?e < w" by simp
          then have "opaque_rgb pixels thr (?e, y) \<noteq> Some rgb" by (rule extend_run_stops)
          moreover from same s(5) have "rgb2 = rgb" using rgb_key_inj by simp
          ultimately show False using s(4) eq by simp
        qed
        then show ?thesis by (simp add: apart_def)
      qed
      with IH True Some show ?thesis by (simp add: row_events_run)
    qed
  qed
qed

lemma all_events_Suc:
  "all_events pixels thr w (Suc h) = all_events pixels thr w h @ row_events pixels thr w h 0"
  by (simp add: all_events_def)

lemma all_events_shape:
  "e \<in> set (all_events pixels thr w h) \<Longrightarrow>
   0 \<le> run_y (snd e) \<and> run_y (snd e) < int h \<and> 0 \<le> run_x1 (snd e) \<and>
   run_x1 (snd e) \<le> run_x2 (snd e) \<and> run_x2 (snd e) < int w"
proof (induction h)
  case 0
  then show ?case by (simp add: all_events_def)
next
  case (Suc h)
  from Suc.prems consider "e \<in> set (all_events pixels thr w h)"
    | "e \<in> set (row_events pixels thr w h 0)"
    by (auto simp: all_events_Suc)
  then show ?case
  proof cases
    case 1
    with Suc.IH show ?thesis by simp
  next
    case 2
    from row_events_shape [OF _ 2] show ?thesis by simp
  qed
qed

lemma all_events_apart: "sorted_wrt apart (all_events pixels thr w h)"
proof (induction h)
  case 0
  show ?case by (simp add: all_events_def)
next
  case (Suc h)
  have "apart e1 e2" if "e1 \<in> set (all_events pixels thr w h)"
    "e2 \<in> set (row_events pixels thr w h 0)" for e1 e2
  proof -
    from all_events_shape [OF that(1)] have "run_y (snd e1) < int h" by simp
    moreover from row_events_shape [OF _ that(2)] have "run_y (snd e2) = int h" by simp
    ultimately show ?thesis by (simp add: apart_def)
  qed
  with Suc.IH row_events_apart [of 0 w pixels thr h] show ?case
    by (simp add: all_events_Suc sorted_wrt_append)
qed

lemma all_events_count:
  "length (filter (\<lambda>e. covers (snd e) p) (all_events pixels thr w h)) =
     (if 0 \<le> snd p \<and> snd p < int h \<and> 0 \<le> fst p \<and> fst p < int w \<and>
         opaque_rgb pixels thr (nat (fst p), nat (snd p)) \<noteq> None then 1 else 0)"
proof (induction h)
  case 0
  show ?case by (simp add: all_events_def)
next
  case (Suc h)
  define A where "A y \<longleftrightarrow> opaque_rgb pixels thr (nat (fst p), y) \<noteq> None" for y
  have row: "length (filter (\<lambda>e. covers (snd e) p) (row_events pixels thr w h 0)) =
     (if snd p = int h \<and> 0 \<le> fst p \<and> fst p < int w \<and> A h then 1 else 0)"
    using row_events_count [of 0 w p pixels thr h] unfolding A_def by simp
  from Suc.IH have IH: "length (filter (\<lambda>e. covers (snd e) p) (all_events pixels thr w h)) =
     (if 0 \<le> snd p \<and> snd p < int h \<and> 0 \<le> fst p \<and> fst p < int w \<and> A (nat (snd p))
      then 1 else 0)"
    unfolding A_def .
  have "(if 0 \<le> snd p \<and> snd p < int h \<and> 0 \<le> fst p \<and> fst p < int w \<and> A (nat (snd p))
      then 1 else 0) +
     (if snd p = int h \<and> 0 \<le> fst p \<and> fst p < int w \<and> A h then 1 else 0) =
     (if 0 \<le> snd p \<and> snd p < int (Suc h) \<and> 0 \<le> fst p \<and> fst p < int w \<and> A (nat (snd p))
      then 1 else (0::nat))"
  proof (cases "snd p = int h")
    case True
    then show ?thesis by simp
  next
    case False
    then have "snd p < int (Suc h) \<longleftrightarrow> snd p < int h" by linarith
    with False show ?thesis by simp
  qed
  with row IH show ?case unfolding A_def by (simp add: all_events_Suc)
qed

subsection \<open>The dictionary\<close>

lemma table_runs_setdefault_append:
  "mset (table_runs (setdefault_append t c r)) = mset (table_runs t) + {#r#}"
  by (induction t c r rule: setdefault_append.induct) (simp_all add: table_runs_def)

lemma table_runs_events:
  "mset (table_runs (foldl add_event t es)) = mset (table_runs t) + mset (map snd es)"
  by (induction es arbitrary: t) (simp_all add: add_event_def table_runs_setdefault_append)

lemma count_mset: "length (filter P xs) = size (filter_mset P (mset xs))"
  by (induction xs) simp_all

lemma table_runs_Nil: "table_runs [] = []"
  by (simp add: table_runs_def)

lemma table_count:
  "length (filter P (table_runs (foldl add_event [] es))) =
   length (filter (\<lambda>e. P (snd e)) es)"
proof -
  have "length (filter P (table_runs (foldl add_event [] es))) =
        size (filter_mset P (mset (map snd es)))"
    by (simp add: count_mset table_runs_events table_runs_Nil)
  also have "\<dots> = length (filter P (map snd es))" by (simp add: count_mset)
  also have "\<dots> = length (filter (\<lambda>e. P (snd e)) es)"
    by (simp add: filter_map comp_def)
  finally show ?thesis .
qed

lemma setdefault_append_keys:
  "fst ` set (setdefault_append t c r) = insert c (fst ` set t)"
  by (induction t c r rule: setdefault_append.induct) auto

lemma setdefault_append_cases:
  "distinct (map fst t) \<Longrightarrow> (k, v) \<in> set (setdefault_append t c r) \<Longrightarrow>
     (k \<noteq> c \<and> (k, v) \<in> set t) \<or>
     (k = c \<and> (\<exists>rs. (c, rs) \<in> set t \<and> v = rs @ [r])) \<or>
     (k = c \<and> c \<notin> fst ` set t \<and> v = [r])"
proof (induction t c r rule: setdefault_append.induct)
  case (1 k v)
  then show ?case by simp
next
  case (2 k' vs d c r)
  show ?case
  proof (cases "k' = c")
    case True
    with "2.prems" show ?thesis by (auto simp: image_iff)
  next
    case False
    from "2.prems"(1) have dd: "distinct (map fst d)" by simp
    from False "2.prems" consider "(k, v) = (k', vs)" | "(k, v) \<in> set (setdefault_append d c r)"
      by auto
    then show ?thesis
    proof cases
      case 1
      with False show ?thesis by simp
    next
      case 2
      from "2.IH" [OF False dd 2] False show ?thesis by auto
    qed
  qed
qed

lemma setdefault_append_distinct:
  "distinct (map fst t) \<Longrightarrow> distinct (map fst (setdefault_append t c r))"
proof (induction t c r rule: setdefault_append.induct)
  case (1 k v)
  show ?case by simp
next
  case (2 k' vs d c r)
  then show ?case
    using setdefault_append_keys [of d c r] by (auto simp: image_iff)
qed

lemma grouped_add_event:
  assumes "grouped t es"
  shows "grouped (add_event t e) (es @ [e])"
proof -
  obtain c r where e: "e = (c, r)" by (cases e)
  from assms have g1: "\<And>k rs. (k, rs) \<in> set t \<Longrightarrow> rs = map snd (filter (\<lambda>e. fst e = k) es)"
    and g2: "fst ` set es \<subseteq> fst ` set t"
    and g3: "distinct (map fst t)"
    by (auto simp: grouped_def)
  have "v = map snd (filter (\<lambda>e. fst e = k) (es @ [(c, r)]))"
    if "(k, v) \<in> set (setdefault_append t c r)" for k v
  proof -
    from setdefault_append_cases [OF g3 that]
    consider "k \<noteq> c" "(k, v) \<in> set t"
      | rs where "k = c" "(c, rs) \<in> set t" "v = rs @ [r]"
      | "k = c" "c \<notin> fst ` set t" "v = [r]"
      by blast
    then show ?thesis
    proof cases
      case 1
      with g1 [OF 1(2)] show ?thesis by simp
    next
      case 2
      with g1 [OF 2(2)] show ?thesis by simp
    next
      case 3
      with g2 have "c \<notin> fst ` set es" by blast
      then have "filter (\<lambda>e. fst e = c) es = []" by (auto simp: filter_empty_conv)
      with 3 show ?thesis by simp
    qed
  qed
  moreover from g2 have "fst ` set (es @ [(c, r)]) \<subseteq> fst ` set (setdefault_append t c r)"
    by (auto simp: setdefault_append_keys)
  moreover from g3 have "distinct (map fst (setdefault_append t c r))"
    by (rule setdefault_append_distinct)
  ultimately show ?thesis unfolding grouped_def add_event_def e by auto
qed

lemma grouped_foldl: "grouped t es \<Longrightarrow> grouped (foldl add_event t es') (es @ es')"
proof (induction es' arbitrary: t es)
  case Nil
  then show ?case by simp
next
  case (Cons e es')
  from Cons.prems have "grouped (add_event t e) (es @ [e])" by (rule grouped_add_event)
  then have "grouped (foldl add_event (add_event t e) es') ((es @ [e]) @ es')" by (rule Cons.IH)
  then show ?case by simp
qed

lemma grouped_table:
  "(c, rs) \<in> set (foldl add_event [] es) \<Longrightarrow> rs = map snd (filter (\<lambda>e. fst e = c) es)"
proof -
  have "grouped [] []" by (simp add: grouped_def)
  then have "grouped (foldl add_event [] es) ([] @ es)" by (rule grouped_foldl)
  then show "(c, rs) \<in> set (foldl add_event [] es) \<Longrightarrow> rs = map snd (filter (\<lambda>e. fst e = c) es)"
    by (auto simp: grouped_def)
qed

section \<open>Properties of the vectoriser\<close>

lemma opaque_rgb_alpha:
  "opaque_rgb pixels thr q \<noteq> None \<longleftrightarrow>
     (case alpha (pixels q) of None \<Rightarrow> False | Some a \<Rightarrow> thr \<le> a)"
  by (auto simp: opaque_rgb_def alpha_def split: option.splits)

lemma table_covering:
  "length (filter (\<lambda>r. covers r p) (table_runs (foldl add_event [] (all_events pixels thr w h)))) =
     (if solid pixels thr w h p then 1 else 0)"
proof -
  have "solid pixels thr w h p \<longleftrightarrow>
      (0 \<le> snd p \<and> snd p < int h \<and> 0 \<le> fst p \<and> fst p < int w \<and>
       opaque_rgb pixels thr (nat (fst p), nat (snd p)) \<noteq> None)"
    unfolding solid_def opaque_rgb_alpha by blast
  then show ?thesis by (simp only: table_count all_events_count)
qed

lemma events_distinct_keys: "distinct (map fst (foldl add_event t es))" if "distinct (map fst t)"
  using that
  by (induction es arbitrary: t) (simp_all add: add_event_def setdefault_append_distinct)

text \<open>
  Claim C2 (colour partition). For every image whose pixels can be loaded and every
  threshold, \<open>vectorize\<close> returns a table with each colour key once, and the pixels
  covered by the runs of all keys together are exactly the positions of the grid whose
  alpha is at least the threshold; no position is covered by more than one run (the runs
  are counted with multiplicity, over all keys).
\<close>

theorem vectorize_color_partition:
  assumes "image_load img = Some pixels" and "image_size img = (w, h)"
  shows "\<exists>t. vectorize img thr = Inr (t, w, h) \<and> distinct (map fst t) \<and>
    (\<Union>r\<in>set (table_runs t). {p. covers r p}) = {p. solid pixels thr w h p} \<and>
    (\<forall>p. length (filter (\<lambda>r. covers r p) (table_runs t)) \<le> 1)"
proof -
  let ?t = "foldl add_event [] (all_events pixels thr w h)"
  have v: "vectorize img thr = Inr (?t, w, h)" using assms by (rule vectorize_events)
  have d: "distinct (map fst ?t)" by (rule events_distinct_keys) simp
  have c: "length (filter (\<lambda>r. covers r p) (table_runs ?t)) =
     (if solid pixels thr w h p then 1 else 0)" for p
    by (rule table_covering)
  have u: "(\<Union>r\<in>set (table_runs ?t). {p. covers r p}) = {p. solid pixels thr w h p}"
  proof (rule set_eqI)
    fix p
    have "p \<in> (\<Union>r\<in>set (table_runs ?t). {p. covers r p}) \<longleftrightarrow>
        filter (\<lambda>r. covers r p) (table_runs ?t) \<noteq> []"
      by (auto simp: filter_empty_conv)
    also have "\<dots> \<longleftrightarrow> 0 < length (filter (\<lambda>r. covers r p) (table_runs ?t))" by simp
    also have "\<dots> \<longleftrightarrow> solid pixels thr w h p" unfolding c by simp
    finally show "p \<in> (\<Union>r\<in>set (table_runs ?t). {p. covers r p}) \<longleftrightarrow>
        p \<in> {p. solid pixels thr w h p}" by simp
  qed
  have "\<forall>p. length (filter (\<lambda>r. covers r p) (table_runs ?t)) \<le> 1"
    unfolding c by simp
  with v d u show ?thesis by blast
qed

theorem vectorize_color_partition_witness:
  "\<exists>t. vectorize \<lparr>image_size = (2, 1),
            image_load = Some (\<lambda>p. if p = (0, 0) then Channels [255, 0, 0, 200]
                                     else Channels [0, 0, 0, 0])\<rparr> 128 = Inr (t, 2, 1) \<and>
       (\<exists>r\<in>set (table_runs t). covers r (0, 0)) \<and>
       \<not> (\<exists>r\<in>set (table_runs t). covers r (1, 0))"
proof -
  let ?px = "\<lambda>p::nat \<times> nat. if p = (0, 0) then Channels [255, 0, 0, 200] else Channels [0, 0, 0, 0]"
  let ?img = "\<lparr>image_size = (2, 1), image_load = Some ?px\<rparr>"
  from vectorize_color_partition [of ?img ?px 2 1 128]
  obtain t where t: "vectorize ?img 128 = Inr (t, 2, 1)"
    "(\<Union>r\<in>set (table_runs t). {p. covers r p}) = {p. solid ?px 128 2 1 p}"
    by auto
  have "solid ?px 128 2 1 (0, 0)" by (simp add: solid_def alpha_def)
  with t(2) have a: "\<exists>r\<in>set (table_runs t). covers r (0, 0)" by blast
  have "\<not> solid ?px 128 2 1 (1, 0)" by (simp add: solid_def alpha_def)
  with t(2) have b: "\<not> (\<exists>r\<in>set (table_runs t). covers r (1, 0))" by blast
  from t(1) a b show ?thesis by blast
qed

lemma table_entry_runs:
  assumes "(c, rs) \<in> set (foldl add_event [] (all_events pixels thr w h))"
  shows "(\<forall>r\<in>set rs. run_x1 r \<le> run_x2 r) \<and>
    sorted_wrt (\<lambda>r1 r2. run_y r1 = run_y r2 \<longrightarrow> run_x2 r1 + 1 < run_x1 r2) rs"
proof -
  let ?es = "filter (\<lambda>e. fst e = c) (all_events pixels thr w h)"
  from assms have rs: "rs = map snd ?es" by (rule grouped_table)
  have "run_x1 r \<le> run_x2 r" if "r \<in> set rs" for r
  proof -
    from that rs obtain e where "e \<in> set (all_events pixels thr w h)" "r = snd e" by auto
    with all_events_shape [of e pixels thr w h] show ?thesis by simp
  qed
  moreover have "sorted_wrt apart ?es"
    using all_events_apart by (rule sorted_wrt_filter)
  then have "sorted_wrt (\<lambda>e1 e2. run_y (snd e1) = run_y (snd e2) \<longrightarrow>
      run_x2 (snd e1) + 1 < run_x1 (snd e2)) ?es"
    by (rule sorted_wrt_mono_rel [rotated]) (auto simp: apart_def)
  then have "sorted_wrt (\<lambda>r1 r2. run_y r1 = run_y r2 \<longrightarrow> run_x2 r1 + 1 < run_x1 r2) rs"
    unfolding rs by (simp add: sorted_wrt_map)
  ultimately show ?thesis by blast
qed

text \<open>
  Claim C8 (run invariant). For every image whose pixels can be loaded and every
  threshold, every run in the table returned by \<open>vectorize\<close> starts no later than it ends,
  and any two runs at different places of the list of one colour key that lie on the same
  row have at least one column strictly between them, so they neither overlap nor touch.
\<close>

theorem vectorize_runs_separated:
  assumes "image_load img = Some pixels" and "image_size img = (w, h)"
  shows "\<exists>t. vectorize img thr = Inr (t, w, h) \<and>
    (\<forall>(c, rs)\<in>set t.
       (\<forall>r\<in>set rs. run_x1 r \<le> run_x2 r) \<and>
       (\<forall>i<length rs. \<forall>j<length rs. i \<noteq> j \<and> run_y (rs ! i) = run_y (rs ! j) \<longrightarrow>
          run_x2 (rs ! i) + 1 < run_x1 (rs ! j) \<or> run_x2 (rs ! j) + 1 < run_x1 (rs ! i)))"
proof -
  let ?t = "foldl add_event [] (all_events pixels thr w h)"
  have v: "vectorize img thr = Inr (?t, w, h)" using assms by (rule vectorize_events)
  have "(\<forall>r\<in>set rs. run_x1 r \<le> run_x2 r) \<and>
       (\<forall>i<length rs. \<forall>j<length rs. i \<noteq> j \<and> run_y (rs ! i) = run_y (rs ! j) \<longrightarrow>
          run_x2 (rs ! i) + 1 < run_x1 (rs ! j) \<or> run_x2 (rs ! j) + 1 < run_x1 (rs ! i))"
    if "(c, rs) \<in> set ?t" for c rs
  proof -
    from table_entry_runs [OF that]
    have a: "\<forall>r\<in>set rs. run_x1 r \<le> run_x2 r"
      and s: "sorted_wrt (\<lambda>r1 r2. run_y r1 = run_y r2 \<longrightarrow> run_x2 r1 + 1 < run_x1 r2) rs"
      by blast+
    from s have ord: "run_y (rs ! i) = run_y (rs ! j) \<longrightarrow> run_x2 (rs ! i) + 1 < run_x1 (rs ! j)"
      if "i < j" "j < length rs" for i j
      using that by (simp add: sorted_wrt_iff_nth_less)
    have "run_x2 (rs ! i) + 1 < run_x1 (rs ! j) \<or> run_x2 (rs ! j) + 1 < run_x1 (rs ! i)"
      if "i < length rs" "j < length rs" "i \<noteq> j" "run_y (rs ! i) = run_y (rs ! j)" for i j
    proof (cases "i < j")
      case True
      with ord [OF True that(2)] that(4) show ?thesis by simp
    next
      case False
      with that(3) have "j < i" by simp
      with ord [OF this that(1)] that(4) show ?thesis by simp
    qed
    with a show ?thesis by blast
  qed
  with v show ?thesis by blast
qed

theorem vectorize_runs_separated_witness:
  "\<exists>t. vectorize \<lparr>image_size = (3, 1),
            image_load = Some (\<lambda>p. if p = (1, 0) then Channels [0, 0, 0, 0]
                                     else Channels [255, 0, 0, 255])\<rparr> 128 = Inr (t, 3, 1) \<and>
    (\<forall>(c, rs)\<in>set t.
       (\<forall>r\<in>set rs. run_x1 r \<le> run_x2 r) \<and>
       (\<forall>i<length rs. \<forall>j<length rs. i \<noteq> j \<and> run_y (rs ! i) = run_y (rs ! j) \<longrightarrow>
          run_x2 (rs ! i) + 1 < run_x1 (rs ! j) \<or> run_x2 (rs ! j) + 1 < run_x1 (rs ! i)))"
  by (rule vectorize_runs_separated) simp_all

subsection \<open>A single colour above the threshold\<close>

lemma uniform_opaque:
  assumes "\<forall>x<w. \<forall>y<h. \<exists>a. pixels (x, y) = Channels [r, g, b, a] \<and> thr \<le> a"
    and "x < w" and "y < h"
  shows "opaque_rgb pixels thr (x, y) = Some (r, g, b)"
proof -
  from assms obtain a where "pixels (x, y) = Channels [r, g, b, a]" "thr \<le> a" by blast
  then show ?thesis by (simp add: opaque_rgb_def)
qed

lemma uniform_extend_run:
  assumes "\<forall>x<w. \<forall>y<h. \<exists>a. pixels (x, y) = Channels [r, g, b, a] \<and> thr \<le> a"
    and "y < h"
  shows "x \<le> w \<Longrightarrow> extend_run pixels thr w y (r, g, b) x = w"
proof (induction "w - x" arbitrary: x)
  case 0
  then show ?case by (simp add: extend_run_unfold [of _ _ _ _ _ x])
next
  case (Suc n)
  then have "x < w" by simp
  with assms have "opaque_rgb pixels thr (x, y) = Some (r, g, b)" by (simp add: uniform_opaque)
  moreover from Suc.hyps(2) \<open>x < w\<close> have "extend_run pixels thr w y (r, g, b) (Suc x) = w"
    by (intro Suc.hyps(1)) simp_all
  ultimately show ?case using \<open>x < w\<close> by (simp add: extend_run_unfold [of _ _ _ _ _ x])
qed

lemma uniform_row_events:
  assumes "\<forall>x<w. \<forall>y<h. \<exists>a. pixels (x, y) = Channels [r, g, b, a] \<and> thr \<le> a"
    and "y < h" and "0 < w"
  shows "row_events pixels thr w y 0 =
    [((r, g, b, 255), \<lparr>run_y = int y, run_x1 = 0, run_x2 = int w - 1\<rparr>)]"
proof -
  from assms have o: "opaque_rgb pixels thr (0, y) = Some (r, g, b)" by (simp add: uniform_opaque)
  from assms have e: "extend_run pixels thr w y (r, g, b) (Suc 0) = w"
    by (intro uniform_extend_run [where h = h]) simp_all
  from row_events_run [OF \<open>0 < w\<close> o] e show ?thesis
    by (simp add: rgb_key_def row_events_stop)
qed

lemma concat_singletons: "(\<forall>y\<in>set ys. g y = [f y]) \<Longrightarrow> concat (map g ys) = map f ys"
  by (induction ys) simp_all

lemma uniform_all_events:
  assumes "\<forall>x<w. \<forall>y<h. \<exists>a. pixels (x, y) = Channels [r, g, b, a] \<and> thr \<le> a"
    and "0 < w"
  shows "all_events pixels thr w h =
    map (\<lambda>i. ((r, g, b, 255), \<lparr>run_y = int i, run_x1 = 0, run_x2 = int w - 1\<rparr>)) [0..<h]"
proof -
  have "\<forall>y\<in>set [0..<h]. row_events pixels thr w y 0 =
    [((r, g, b, 255), \<lparr>run_y = int y, run_x1 = 0, run_x2 = int w - 1\<rparr>)]"
    using assms by (simp add: uniform_row_events [where h = h])
  then show ?thesis unfolding all_events_def by (rule concat_singletons)
qed

lemma add_events_same_key:
  "foldl add_event [(c, rs)] (map (\<lambda>i. (c, f i)) is) = [(c, rs @ map f is)]"
  by (induction "is" arbitrary: rs) (simp_all add: add_event_def)

lemma add_events_single_key:
  assumes "0 < h"
  shows "foldl add_event [] (map (\<lambda>i. (c, f i)) [0..<h]) = [(c, map f [0..<h])]"
proof -
  from assms have "[0..<h] = 0 # [Suc 0..<h]" by (simp add: upt_conv_Cons)
  then show ?thesis by (simp add: add_event_def add_events_same_key)
qed

text \<open>
  Claim C6 (row coverage). For a \<open>w\<close> by \<open>h\<close> image with at least one pixel, in which
  every pixel has the same red, green and blue and an alpha of at least the threshold,
  \<open>vectorize\<close> returns a table with the single key \<open>(r, g, b, 255)\<close>, whose list holds
  exactly \<open>h\<close> runs, the \<open>i\<close>-th being row \<open>i\<close> from column \<open>0\<close> to column \<open>w - 1\<close>. The
  shared colour is that of a pixel of the image, so the image has positive width and
  height; the size type of the data model has positive components as well.
\<close>

theorem vectorize_single_color:
  assumes "image_load img = Some pixels" and "image_size img = (w, h)"
    and "0 < w" and "0 < h"
    and "\<forall>x<w. \<forall>y<h. \<exists>a. pixels (x, y) = Channels [r, g, b, a] \<and> thr \<le> a"
  shows "vectorize img thr =
    Inr ([((r, g, b, 255),
           map (\<lambda>i. \<lparr>run_y = int i, run_x1 = 0, run_x2 = int w - 1\<rparr>) [0..<h])], w, h)"
proof -
  have "vectorize img thr = Inr (foldl add_event [] (all_events pixels thr w h), w, h)"
    using assms(1,2) by (rule vectorize_events)
  also have "all_events pixels thr w h =
    map (\<lambda>i. ((r, g, b, 255), \<lparr>run_y = int i, run_x1 = 0, run_x2 = int w - 1\<rparr>)) [0..<h]"
    using assms(5,3) by (rule uniform_all_events)
  also have "foldl add_event [] \<dots> =
    [((r, g, b, 255), map (\<lambda>i. \<lparr>run_y = int i, run_x1 = 0, run_x2 = int w - 1\<rparr>) [0..<h])]"
    using assms(4) by (rule add_events_single_key)
  finally show ?thesis .
qed

theorem vectorize_single_color_witness:
  "vectorize \<lparr>image_size = (4, 2), image_load = Some (\<lambda>p. Channels [255, 0, 0, 255])\<rparr> 128 =
     Inr ([((255, 0, 0, 255),
            [\<lparr>run_y = 0, run_x1 = 0, run_x2 = 3\<rparr>, \<lparr>run_y = 1, run_x1 = 0, run_x2 = 3\<rparr>])],
          4, 2)"
proof -
  have "[0..<2] = [0, Suc 0]" by (simp add: upt_conv_Cons)
  with vectorize_single_color
    [of "\<lparr>image_size = (4, 2), image_load = Some (\<lambda>p. Channels [255, 0, 0, 255])\<rparr>"
        "\<lambda>p. Channels [255, 0, 0, 255]" 4 2 255 0 0 128]
  show ?thesis by simp
qed

text \<open>An image without pixels yields the empty table, whatever its other dimension is.\<close>

lemma vectorize_no_pixels:
  assumes "image_load img = Some pixels" and "image_size img = (w, h)" and "w = 0 \<or> h = 0"
  shows "vectorize img thr = Inr ([], w, h)"
proof -
  have "row_events pixels thr 0 y 0 = []" for y by (simp add: row_events_stop)
  with assms(3) have "all_events pixels thr w h = []"
    by (auto simp: all_events_def)
  with vectorize_events [OF assms(1,2), of thr] show ?thesis by simp
qed

subsection \<open>Examples of the scan\<close>

text \<open>
  Two colours on one row; a row broken by a pixel below the threshold and ended by a value
  that is no tuple; an image entirely below the threshold; an image that does not load.
\<close>

lemma vectorize_two_colors:
  "vectorize \<lparr>image_size = (4, 1),
       image_load = Some (\<lambda>p. if fst p < 2 then Channels [255, 0, 0, 255]
                                else Channels [0, 255, 0, 255])\<rparr> 128 =
     Inr ([((255, 0, 0, 255), [\<lparr>run_y = 0, run_x1 = 0, run_x2 = 1\<rparr>]),
           ((0, 255, 0, 255), [\<lparr>run_y = 0, run_x1 = 2, run_x2 = 3\<rparr>])], 4, 1)"
  by code_simp

lemma vectorize_gap:
  "vectorize \<lparr>image_size = (5, 2),
       image_load = Some (\<lambda>p. if fst p = 2 then Channels [255, 0, 0, 100]
                                else if snd p = 1 \<and> fst p = 4 then Scalar 7
                                else Channels [255, 0, 0, 255])\<rparr> 128 =
     Inr ([((255, 0, 0, 255),
            [\<lparr>run_y = 0, run_x1 = 0, run_x2 = 1\<rparr>, \<lparr>run_y = 0, run_x1 = 3, run_x2 = 4\<rparr>,
             \<lparr>run_y = 1, run_x1 = 0, run_x2 = 1\<rparr>, \<lparr>run_y = 1, run_x1 = 3, run_x2 = 3\<rparr>])],
          5, 2)"
  by code_simp

lemma vectorize_transparent:
  "vectorize \<lparr>image_size = (4, 1), image_load = Some (\<lambda>p. Channels [255, 0, 0, 0])\<rparr> 128 =
     Inr ([], 4, 1)"
  by code_simp

lemma vectorize_unloaded:
  "vectorize \<lparr>image_size = (4, 1), image_load = None\<rparr> 128 = Inl PixelLoadFailed"
  by (simp add: vectorize_def)

section \<open>Properties of the path emitter\<close>

subsection \<open>Printing and reading numbers\<close>

lemma of_char_digit_char: "d < 10 \<Longrightarrow> (of_char (digit_char d) :: nat) = 48 + d"
  by (simp add: digit_char_def)

lemma is_digit_digit_char: "d < 10 \<Longrightarrow> is_digit (digit_char d)"
  by (simp add: is_digit_def of_char_digit_char)

lemma digit_val_digit_char: "d < 10 \<Longrightarrow> digit_val (digit_char d) = d"
  by (simp add: digit_val_def of_char_digit_char)

lemma str_nat_small: "n < 10 \<Longrightarrow> str_nat n = [digit_char n]"
  by (simp add: str_nat.simps [of n])

lemma str_nat_large:
  "\<not> n < 10 \<Longrightarrow> str_nat n = str_nat (n div 10) @ [digit_char (n mod 10)]"
  by (simp add: str_nat.simps [of n])

lemma str_nat_digits: "list_all is_digit (str_nat n)"
proof (induction n rule: less_induct)
  case (less n)
  show ?case
  proof (cases "n < 10")
    case True
    then show ?thesis by (simp add: str_nat_small is_digit_digit_char)
  next
    case False
    then have "n div 10 < n" by simp
    then have "list_all is_digit (str_nat (n div 10))" by (rule less)
    with False show ?thesis by (simp add: str_nat_large is_digit_digit_char)
  qed
qed

lemma str_nat_nonempty: "str_nat n \<noteq> []"
  by (cases "n < 10") (simp_all add: str_nat_small str_nat_large)

lemma nat_of_digits_snoc: "nat_of_digits (ds @ [c]) = 10 * nat_of_digits ds + digit_val c"
  by (simp add: nat_of_digits_def)

lemma nat_of_digits_str_nat: "nat_of_digits (str_nat n) = n"
proof (induction n rule: less_induct)
  case (less n)
  show ?case
  proof (cases "n < 10")
    case True
    then show ?thesis by (simp add: str_nat_small nat_of_digits_def digit_val_digit_char)
  next
    case False
    then have "n div 10 < n" by simp
    then have "nat_of_digits (str_nat (n div 10)) = n div 10" by (rule less)
    with False show ?thesis
      by (simp add: str_nat_large nat_of_digits_snoc digit_val_digit_char)
  qed
qed

lemma takeWhile_digits:
  "list_all is_digit ds \<Longrightarrow> stops rest \<Longrightarrow> takeWhile is_digit (ds @ rest) = ds"
  by (induction ds) (auto simp: stops_def split: list.splits)

lemma dropWhile_digits:
  "list_all is_digit ds \<Longrightarrow> stops rest \<Longrightarrow> dropWhile is_digit (ds @ rest) = rest"
  by (induction ds) (auto simp: stops_def split: list.splits)

lemma read_nat_str_nat: "stops rest \<Longrightarrow> read_nat (str_nat n @ rest) = Some (n, rest)"
  by (simp add: read_nat_def Let_def takeWhile_digits dropWhile_digits str_nat_digits
      str_nat_nonempty nat_of_digits_str_nat)

lemma minus_no_digit: "\<not> is_digit CHR ''-''"
  by (simp add: is_digit_def)

lemma str_nat_hd: "\<exists>c cs. str_nat n = c # cs \<and> is_digit c"
  using str_nat_digits [of n] str_nat_nonempty [of n] by (cases "str_nat n") simp_all

lemma read_int_str_int:
  assumes "stops rest"
  shows "read_int (str_int i @ rest) = Some (i, rest)"
proof (cases "i < 0")
  case True
  with read_nat_str_nat [OF assms, of "nat (- i)"] show ?thesis
    by (simp add: str_int_def)
next
  case False
  obtain c cs where c: "str_nat (nat i) = c # cs" "is_digit c"
    using str_nat_hd by blast
  with minus_no_digit have "c \<noteq> CHR ''-''" by blast
  with read_nat_str_nat [OF assms, of "nat i"] c(1) False show ?thesis
    by (simp add: str_int_def)
qed

lemma stops_simps:
  "stops (CHR '','' # s)" "stops (CHR ''H'' # s)" "stops (CHR ''V'' # s)" "stops (CHR ''Z'' # s)"
  by (simp_all add: stops_def is_digit_def)

lemma read_subpath_piece:
  "read_subpath (piece run) =
     Some (rectangle (run_x1 run, run_y run) (run_x2 run + 1, run_y run + 1))"
  by (simp add: read_subpath_def piece_def rectangle_def read_int_str_int stops_simps)

lemma str_nat_no_space: "CHR '' '' \<notin> set (str_nat n)"
proof
  assume "CHR '' '' \<in> set (str_nat n)"
  with str_nat_digits [of n] have "is_digit CHR '' ''" by (simp add: list_all_iff)
  then show False by (simp add: is_digit_def)
qed

lemma str_int_no_space: "CHR '' '' \<notin> set (str_int i)"
  by (simp add: str_int_def str_nat_no_space)

lemma piece_no_space: "CHR '' '' \<notin> set (piece run)"
  by (simp add: piece_def str_int_no_space)

lemma piece_nonempty: "piece run \<noteq> []"
  by (simp add: piece_def)

lemma split_space_nonempty: "split_space s \<noteq> []"
  by (induction s) (auto split: list.splits)

lemma split_space_plain: "CHR '' '' \<notin> set p \<Longrightarrow> split_space p = [p]"
  by (induction p) auto

lemma split_space_append:
  "CHR '' '' \<notin> set p \<Longrightarrow> split_space (p @ CHR '' '' # s) = p # split_space s"
  by (induction p) auto

lemma split_space_join_Cons:
  "\<forall>q\<in>set (p # ps). CHR '' '' \<notin> set q \<Longrightarrow> split_space (str_join '' '' (p # ps)) = p # ps"
proof (induction ps arbitrary: p)
  case Nil
  then show ?case by (simp add: split_space_plain)
next
  case (Cons q ps)
  from Cons.prems have "split_space (str_join '' '' (q # ps)) = q # ps"
    by (intro Cons.IH) simp
  moreover from Cons.prems have "CHR '' '' \<notin> set p" by simp
  ultimately show ?case using split_space_append [of p "str_join '' '' (q # ps)"] by simp
qed

lemma split_space_join:
  "ps \<noteq> [] \<Longrightarrow> \<forall>p\<in>set ps. CHR '' '' \<notin> set p \<Longrightarrow> split_space (str_join '' '' ps) = ps"
  using split_space_join_Cons by (cases ps) blast+

lemma str_join_nonempty: "ps \<noteq> [] \<Longrightarrow> \<forall>p\<in>set ps. p \<noteq> [] \<Longrightarrow> str_join sep ps \<noteq> []"
  by (induction sep ps rule: str_join.induct) auto

lemma parts_loop:
  "foldl (\<lambda>parts run.
            let x1 = run_x1 run;
                x2 = run_x2 run + 1;
                y = run_y run
            in parts @ [''M'' @ str_int x1 @ '','' @ str_int y @ ''H'' @ str_int x2 @
                        ''V'' @ str_int (y + 1) @ ''H'' @ str_int x1 @ ''Z''])
          acc runs = acc @ map piece runs"
  by (induction runs arbitrary: acc) (simp_all add: piece_def Let_def)

lemma runs_to_path_d_pieces: "runs_to_path_d runs = str_join '' '' (map piece runs)"
  by (simp only: runs_to_path_d_def parts_loop append_Nil)

lemma those_map_Some: "(\<forall>x\<in>set xs. f x = Some (g x)) \<Longrightarrow> those (map f xs) = Some (map g xs)"
  by (induction xs) simp_all


lemma path_reads_back:
  "read_path (runs_to_path_d runs) =
     Some (map (\<lambda>r. rectangle (run_x1 r, run_y r) (run_x2 r + 1, run_y r + 1)) runs) \<and>
   runs_to_path_d [] = []"
proof (cases "runs = []")
  case True
  then show ?thesis by (simp add: runs_to_path_d_pieces read_path_def)
next
  case False
  then have ne: "map piece runs \<noteq> []" by simp
  have "str_join '' '' (map piece runs) \<noteq> []"
    using ne by (rule str_join_nonempty) (simp add: piece_nonempty)
  moreover have "split_space (str_join '' '' (map piece runs)) = map piece runs"
    using ne by (rule split_space_join) (simp add: piece_no_space)
  moreover have "those (map read_subpath (map piece runs)) =
     Some (map (\<lambda>r. rectangle (run_x1 r, run_y r) (run_x2 r + 1, run_y r + 1)) runs)"
    unfolding map_map by (rule those_map_Some) (simp add: read_subpath_piece)
  ultimately show ?thesis by (simp add: runs_to_path_d_pieces read_path_def)
qed

lemma spaces_join_Cons:
  "\<forall>q\<in>set (p # ps). CHR '' '' \<notin> set q \<Longrightarrow>
   length (filter (\<lambda>c. c = CHR '' '') (str_join '' '' (p # ps))) = length ps"
proof (induction ps arbitrary: p)
  case Nil
  then show ?case by (auto simp: filter_empty_conv)
next
  case (Cons q ps)
  from Cons.prems have "length (filter (\<lambda>c. c = CHR '' '') (str_join '' '' (q # ps))) = length ps"
    by (intro Cons.IH) simp
  moreover from Cons.prems have "filter (\<lambda>c. c = CHR '' '') p = []"
    by (auto simp: filter_empty_conv)
  ultimately show ?case by simp
qed

lemma last_join_Cons:
  "\<forall>q\<in>set (p # ps). q \<noteq> [] \<and> last q = c \<Longrightarrow> last (str_join sep (p # ps)) = c"
proof (induction ps arbitrary: p)
  case Nil
  then show ?case by simp
next
  case (Cons q ps)
  from Cons.prems have "last (str_join sep (q # ps)) = c" by (intro Cons.IH) simp
  moreover from Cons.prems have "str_join sep (q # ps) \<noteq> []"
    by (intro str_join_nonempty) simp_all
  ultimately show ?case by simp
qed

lemma piece_last: "last (piece run) = CHR ''Z''"
  by (simp add: piece_def)

lemma path_shape:
  "length (filter (\<lambda>c. c = CHR '' '') (runs_to_path_d runs)) = length runs - 1 \<and>
   (runs \<noteq> [] \<longrightarrow> last (runs_to_path_d runs) = CHR ''Z'')"
proof (cases runs)
  case Nil
  then show ?thesis by (simp add: runs_to_path_d_pieces)
next
  case (Cons r rs)
  have "length (filter (\<lambda>c. c = CHR '' '') (str_join '' '' (piece r # map piece rs))) =
      length (map piece rs)"
    by (rule spaces_join_Cons) (auto simp: piece_no_space)
  moreover have "last (str_join '' '' (piece r # map piece rs)) = CHR ''Z''"
    by (rule last_join_Cons) (auto simp: piece_nonempty piece_last)
  ultimately show ?thesis using Cons by (simp add: runs_to_path_d_pieces)
qed


text \<open>
  Claim C5 (path emission). For every list of runs, the text produced by
  \<open>runs_to_path_d\<close> reads back as one closed subpath per run, in input order, the subpath
  of a run being the rectangle from \<open>(x1, y)\<close> to \<open>(x2 + 1, y + 1)\<close>. The text holds exactly
  one space fewer than there are runs (none for no run) and a non-empty text ends with
  the closing \<^verbatim>\<open>Z\<close> of the last subpath, so no separator trails. The empty list gives
  the empty text.
\<close>

theorem runs_to_path_d_rectangles:
  "read_path (runs_to_path_d runs) =
     Some (map (\<lambda>r. rectangle (run_x1 r, run_y r) (run_x2 r + 1, run_y r + 1)) runs) \<and>
   length (filter (\<lambda>c. c = CHR '' '') (runs_to_path_d runs)) = length runs - 1 \<and>
   (runs \<noteq> [] \<longrightarrow> last (runs_to_path_d runs) = CHR ''Z'') \<and>
   runs_to_path_d [] = []"
  using path_reads_back [of runs] path_shape [of runs] by simp

theorem runs_to_path_d_rectangles_witness:
  "read_path (runs_to_path_d [\<lparr>run_y = 0, run_x1 = 0, run_x2 = 3\<rparr>]) =
     Some [[(0, 0), (4, 0), (4, 1), (0, 1)]] \<and>
   length (filter (\<lambda>c. c = CHR '' '') (runs_to_path_d [\<lparr>run_y = 0, run_x1 = 0, run_x2 = 3\<rparr>])) = 0 \<and>
   last (runs_to_path_d [\<lparr>run_y = 0, run_x1 = 0, run_x2 = 3\<rparr>]) = CHR ''Z''"
  using runs_to_path_d_rectangles [of "[\<lparr>run_y = 0, run_x1 = 0, run_x2 = 3\<rparr>]"]
  by (simp add: rectangle_def)

subsection \<open>Examples\<close>

text \<open>The example of the docstring, and a run with a negative column.\<close>

lemma runs_to_path_d_docstring:
  "runs_to_path_d [\<lparr>run_y = 0, run_x1 = 0, run_x2 = 3\<rparr>, \<lparr>run_y = 1, run_x1 = 0, run_x2 = 3\<rparr>]
     = ''M0,0H4V1H0Z M0,1H4V2H0Z''"
  by code_simp

lemma runs_to_path_d_negative:
  "runs_to_path_d [\<lparr>run_y = 12, run_x1 = - 5, run_x2 = 103\<rparr>] = ''M-5,12H104V13H-5Z''"
  by code_simp

text \<open>The reader is strict about separators: a trailing or a doubled space does not read.\<close>

lemma read_path_trailing_space: "read_path ''M0,0H4V1H0Z '' = None"
  by code_simp

lemma read_path_double_space: "read_path ''M0,0H4V1H0Z  M0,1H4V2H0Z'' = None"
  by code_simp

lemma read_path_two_subpaths:
  "read_path ''M0,0H4V1H0Z M0,1H4V2H0Z'' =
     Some [[(0, 0), (4, 0), (4, 1), (0, 1)], [(0, 1), (4, 1), (4, 2), (0, 2)]]"
  by code_simp

end
